theory Spec2Isabelle
  imports Main "HOL-Library.Word"
begin

section \<open>Data model of \<open>include/lru_cache.hpp\<close>\<close>

text \<open>
  The header defines one class template, \<open>ThreadSafeLRUCache<Key, Value>\<close>. Its structural
  state is a \<open>std::list<CacheEntry>\<close> (most recently used entry first) and a
  \<open>std::unordered_map<Key, EntryList::iterator>\<close>; its metrics are three atomic counters.

  \<^item> \<open>size_t\<close> and \<open>uint64_t\<close> are 64-bit words (an LP64 target); \<open>fetch_add\<close> wraps.
  \<^item> A \<open>steady_clock::time_point\<close> is its count of nanoseconds, an \<open>int\<close>. Every call of
    \<open>steady_clock::now()\<close> in an operation is an argument of that operation, in program
    order.
  \<^item> A list iterator is the address of a list node. The list is the sequence of its nodes,
    each with its address; \<open>splice\<close> moves a node and keeps its address, as in C++.
  \<^item> Using an iterator that refers to no node of the list, and \<open>std::prev(end())\<close> on an
    empty list, is undefined behaviour: the operation then yields \<open>None\<close>.
  \<^item> Names are those of the header. The members lose their trailing underscore
    (\<open>lru_list_\<close> is \<open>lru_list\<close>), the entry's \<open>value\<close> is \<open>val\<close>, and \<open>size\<close>, \<open>empty\<close> and
    \<open>remove\<close> are \<open>size_c\<close>, \<open>empty_c\<close> and \<open>remove_c\<close>. The two floating-point ratios of
    \<open>get_metrics\<close> are left out; its integer fields are the counters themselves.
\<close>

type_synonym size_t = "64 word"
type_synonym uint64_t = "64 word"
type_synonym time_point = int
type_synonym node = nat

datatype error = CacheException string

record ('k, 'v) CacheEntry =
  key :: 'k
  val :: 'v
  access_time :: time_point

type_synonym ('k, 'v) EntryList = "(node \<times> ('k, 'v) CacheEntry) list"

record ('k, 'v) lru_cache =
  capacity :: size_t
  lru_list :: "('k, 'v) EntryList"
  index :: "'k \<rightharpoonup> node"
  hit_count :: size_t
  miss_count :: size_t
  total_access_time_ns :: uint64_t

subsection \<open>The \<open>std::list\<close> primitives the class uses\<close>

text \<open>\<open>begin()\<close>: the address of the first node, \<open>None\<close> for \<open>end()\<close>.\<close>

fun list_begin :: "('k, 'v) EntryList \<Rightarrow> node option" where
  "list_begin [] = None"
| "list_begin ((n, e) # xs) = Some n"

text \<open>\<open>*it\<close>: the entry held by the node at address \<open>n\<close>, \<open>None\<close> when no node has it.\<close>

definition deref :: "node \<Rightarrow> ('k, 'v) EntryList \<Rightarrow> ('k, 'v) CacheEntry option" where
  "deref n xs = map_of xs n"

text \<open>\<open>erase(it)\<close>: unlink the node at address \<open>n\<close>.\<close>

definition list_erase :: "node \<Rightarrow> ('k, 'v) EntryList \<Rightarrow> ('k, 'v) EntryList" where
  "list_erase n xs = filter (\<lambda>p. fst p \<noteq> n) xs"

text \<open>\<open>splice(begin(), list, it)\<close>: relink the node at address \<open>n\<close> before the first node.\<close>

definition splice_front :: "node \<Rightarrow> ('k, 'v) EntryList \<Rightarrow> ('k, 'v) EntryList option" where
  "splice_front n xs =
     (case deref n xs of
        None \<Rightarrow> None
      | Some e \<Rightarrow> Some ((n, e) # list_erase n xs))"

text \<open>
  \<open>emplace_front\<close> allocates a node. The allocator returns an address that no live node
  has; the model takes the address after the largest live one.
\<close>

fun max_node :: "('k, 'v) EntryList \<Rightarrow> node" where
  "max_node [] = 0"
| "max_node ((n, e) # xs) = max n (max_node xs)"

definition new_node :: "('k, 'v) EntryList \<Rightarrow> node" where
  "new_node xs = max_node xs + 1"

definition emplace_front ::
  "'k \<Rightarrow> 'v \<Rightarrow> time_point \<Rightarrow> ('k, 'v) EntryList \<Rightarrow> ('k, 'v) EntryList" where
  "emplace_front k v t_entry xs =
     (new_node xs, \<lparr>key = k, val = v, access_time = t_entry\<rparr>) # xs"

text \<open>\<open>it->value = v\<close>: assignment through the iterator, the node stays where it is.\<close>

definition assign_value :: "node \<Rightarrow> 'v \<Rightarrow> ('k, 'v) EntryList \<Rightarrow> ('k, 'v) EntryList" where
  "assign_value n v xs = map (\<lambda>p. if fst p = n then (fst p, (snd p)\<lparr>val := v\<rparr>) else p) xs"

section \<open>The operations\<close>

text \<open>The constructor throws \<open>CacheException\<close> for capacity 0.\<close>

definition ThreadSafeLRUCache :: "size_t \<Rightarrow> error + ('k, 'v) lru_cache" where
  "ThreadSafeLRUCache c =
     (if c = 0 then Inl (CacheException ''Cache capacity must be greater than 0'')
      else Inr \<lparr>capacity = c, lru_list = [], index = Map.empty,
                hit_count = 0, miss_count = 0, total_access_time_ns = 0\<rparr>)"

definition size_c :: "('k, 'v) lru_cache \<Rightarrow> size_t" where
  "size_c s = of_nat (length (lru_list s))"

text \<open>\<open>capacity()\<close> returns the member, unlocked: it is the field \<open>capacity\<close>.\<close>

definition empty_c :: "('k, 'v) lru_cache \<Rightarrow> bool" where
  "empty_c s = (lru_list s = [])"

definition contains :: "'k \<Rightarrow> ('k, 'v) lru_cache \<Rightarrow> bool" where
  "contains k s = (index s k \<noteq> None)"

text \<open>
  \<open>update_access_metrics(start_time)\<close> reads the clock again (\<open>t_end\<close>) and adds the
  duration, cast to \<open>uint64_t\<close>, to the accumulator.
\<close>

definition update_access_metrics ::
  "time_point \<Rightarrow> time_point \<Rightarrow> ('k, 'v) lru_cache \<Rightarrow> ('k, 'v) lru_cache" where
  "update_access_metrics start_time t_end s =
     s\<lparr>total_access_time_ns := total_access_time_ns s + word_of_int (t_end - start_time)\<rparr>"

definition move_to_front_unsafe ::
  "node \<Rightarrow> ('k, 'v) lru_cache \<Rightarrow> ('k, 'v) lru_cache option" where
  "move_to_front_unsafe it s =
     (if Some it \<noteq> list_begin (lru_list s) then
        (case splice_front it (lru_list s) of
           None \<Rightarrow> None
         | Some xs \<Rightarrow> Some (s\<lparr>lru_list := xs\<rparr>))
      else Some s)"

text \<open>
  The eviction loop. Each round unlinks the last node, so the length of the list is a
  measure; on an empty list \<open>std::prev(end())\<close> is undefined.
\<close>

function evict_if_needed_unsafe :: "('k, 'v) lru_cache \<Rightarrow> ('k, 'v) lru_cache option" where
  "evict_if_needed_unsafe s =
     (if size_c s \<ge> capacity s then
        (if lru_list s = [] then None
         else evict_if_needed_unsafe
                (s\<lparr>index := (index s)(key (snd (last (lru_list s))) := None),
                   lru_list := list_erase (fst (last (lru_list s))) (lru_list s)\<rparr>))
      else Some s)"
  by pat_completeness auto
termination
proof (relation "measure (\<lambda>s. length (lru_list s))")
  show "wf (measure (\<lambda>s::('k, 'v) lru_cache. length (lru_list s)))"
    by simp
next
  fix s :: "('k, 'v) lru_cache"
  assume "lru_list s \<noteq> []"
  then have "last (lru_list s) \<in> set (lru_list s)"
    by simp
  then have "length (list_erase (fst (last (lru_list s))) (lru_list s)) < length (lru_list s)"
    unfolding list_erase_def by (rule length_filter_less) simp
  then show "(s\<lparr>index := (index s)(key (snd (last (lru_list s))) := None),
                lru_list := list_erase (fst (last (lru_list s))) (lru_list s)\<rparr>, s)
             \<in> measure (\<lambda>s. length (lru_list s))"
    by simp
qed

declare evict_if_needed_unsafe.simps [simp del]

definition get ::
  "time_point \<Rightarrow> time_point \<Rightarrow> 'k \<Rightarrow> ('k, 'v) lru_cache
     \<Rightarrow> ('v option \<times> ('k, 'v) lru_cache) option" where
  "get start_time t_end k s =
     (case index s k of
        None \<Rightarrow>
          Some (None, update_access_metrics start_time t_end
                        (s\<lparr>miss_count := miss_count s + 1\<rparr>))
      | Some it \<Rightarrow>
          (case move_to_front_unsafe it (s\<lparr>hit_count := hit_count s + 1\<rparr>) of
             None \<Rightarrow> None
           | Some s' \<Rightarrow>
               (case deref it (lru_list s') of
                  None \<Rightarrow> None
                | Some e \<Rightarrow> Some (Some (val e), update_access_metrics start_time t_end s'))))"

definition put ::
  "time_point \<Rightarrow> time_point \<Rightarrow> time_point \<Rightarrow> 'k \<Rightarrow> 'v \<Rightarrow> ('k, 'v) lru_cache
     \<Rightarrow> (bool \<times> ('k, 'v) lru_cache) option" where
  "put start_time t_entry t_end k v s =
     (case index s k of
        Some it \<Rightarrow>
          (case deref it (lru_list s) of
             None \<Rightarrow> None
           | Some e \<Rightarrow>
               (case move_to_front_unsafe it
                       (s\<lparr>lru_list := assign_value it v (lru_list s)\<rparr>) of
                  None \<Rightarrow> None
                | Some s' \<Rightarrow> Some (True, update_access_metrics start_time t_end s')))
      | None \<Rightarrow>
          (case evict_if_needed_unsafe s of
             None \<Rightarrow> None
           | Some s' \<Rightarrow>
               Some (True, update_access_metrics start_time t_end
                       (s'\<lparr>lru_list := emplace_front k v t_entry (lru_list s'),
                           index := (index s')(k \<mapsto> new_node (lru_list s'))\<rparr>))))"

definition remove_c :: "'k \<Rightarrow> ('k, 'v) lru_cache \<Rightarrow> (bool \<times> ('k, 'v) lru_cache) option" where
  "remove_c k s =
     (case index s k of
        None \<Rightarrow> Some (False, s)
      | Some it \<Rightarrow>
          (case deref it (lru_list s) of
             None \<Rightarrow> None
           | Some e \<Rightarrow>
               Some (True, s\<lparr>lru_list := list_erase it (lru_list s),
                             index := (index s)(k := None)\<rparr>)))"

definition clear :: "('k, 'v) lru_cache \<Rightarrow> ('k, 'v) lru_cache" where
  "clear s = s\<lparr>lru_list := [], index := Map.empty\<rparr>"

definition reset_metrics :: "('k, 'v) lru_cache \<Rightarrow> ('k, 'v) lru_cache" where
  "reset_metrics s = s\<lparr>hit_count := 0, miss_count := 0, total_access_time_ns := 0\<rparr>"

section \<open>Sequences of calls\<close>

datatype ('k, 'v) call =
    Get time_point time_point 'k
  | Put time_point time_point time_point 'k 'v
  | Remove 'k
  | Contains 'k
  | Clear
  | ResetMetrics

fun step :: "('k, 'v) call \<Rightarrow> ('k, 'v) lru_cache \<Rightarrow> ('k, 'v) lru_cache option" where
  "step (Get t0 t1 k) s = map_option snd (get t0 t1 k s)"
| "step (Put t0 te t1 k v) s = map_option snd (put t0 te t1 k v s)"
| "step (Remove k) s = map_option snd (remove_c k s)"
| "step (Contains k) s = Some s"
| "step Clear s = Some (clear s)"
| "step ResetMetrics s = Some (reset_metrics s)"

fun run :: "('k, 'v) call list \<Rightarrow> ('k, 'v) lru_cache \<Rightarrow> ('k, 'v) lru_cache option" where
  "run [] s = Some s"
| "run (c # cs) s = (case step c s of None \<Rightarrow> None | Some s' \<Rightarrow> run cs s')"

text \<open>The cache after construction with capacity \<open>C\<close> and the calls \<open>cs\<close>, in order.\<close>

definition cache_after :: "size_t \<Rightarrow> ('k, 'v) call list \<Rightarrow> ('k, 'v) lru_cache option" where
  "cache_after C cs = (case ThreadSafeLRUCache C of Inl e \<Rightarrow> None | Inr s \<Rightarrow> run cs s)"

text \<open>The keys of the sequence, most recently used first.\<close>

definition keys_of :: "('k, 'v) lru_cache \<Rightarrow> 'k list" where
  "keys_of s = map (\<lambda>p. key (snd p)) (lru_list s)"

section \<open>Invariants\<close>

text \<open>
  The index and the list agree: node addresses are unique, and a key maps to an iterator
  exactly when the node at that address holds an entry with this key.
\<close>

definition linked :: "('k, 'v) lru_cache \<Rightarrow> bool" where
  "linked s \<longleftrightarrow>
     distinct (map fst (lru_list s)) \<and>
     (\<forall>k it. index s k = Some it \<longleftrightarrow> (\<exists>e. deref it (lru_list s) = Some e \<and> key e = k))"

text \<open>The structural invariant of a constructed cache.\<close>

definition cache_inv :: "('k, 'v) lru_cache \<Rightarrow> bool" where
  "cache_inv s \<longleftrightarrow>
     capacity s \<noteq> 0 \<and> length (lru_list s) \<le> unat (capacity s) \<and> linked s"

text \<open>One round of the eviction loop, as it runs on a cache whose nodes are distinct.\<close>

definition evict_last :: "('k, 'v) lru_cache \<Rightarrow> ('k, 'v) lru_cache" where
  "evict_last s =
     s\<lparr>index := (index s)(key (snd (last (lru_list s))) := None),
       lru_list := butlast (lru_list s)\<rparr>"

text \<open>
  The same agreement in terms of positions: the keys of the index are the keys of the
  list, no key and no node address occurs twice, and the iterator stored for a key is the
  address of the node at the position where that key is in the list.
\<close>

definition index_consistent :: "('k, 'v) lru_cache \<Rightarrow> bool" where
  "index_consistent s \<longleftrightarrow>
     dom (index s) = set (keys_of s) \<and>
     distinct (keys_of s) \<and>
     distinct (map fst (lru_list s)) \<and>
     (\<forall>k it. index s k = Some it \<longrightarrow>
        (\<exists>i < length (lru_list s). fst (lru_list s ! i) = it \<and> keys_of s ! i = k))"

text \<open>The time stamp stored in the entry of a key, \<open>None\<close> when the key has no entry.\<close>

definition stored_time :: "'k \<Rightarrow> ('k, 'v) lru_cache \<Rightarrow> time_point option" where
  "stored_time k s =
     (case index s k of
        None \<Rightarrow> None
      | Some it \<Rightarrow> map_option access_time (deref it (lru_list s)))"

text \<open>The value stored in the entry of a key, \<open>None\<close> when the key has no entry.\<close>

definition stored_value :: "'k \<Rightarrow> ('k, 'v) lru_cache \<Rightarrow> 'v option" where
  "stored_value k s =
     (case index s k of
        None \<Rightarrow> None
      | Some it \<Rightarrow> map_option val (deref it (lru_list s)))"

section \<open>Counting calls\<close>

text \<open>
  The number of \<open>get\<close> calls in \<open>cs\<close> since the last \<open>reset_metrics\<close>, starting from
  \<open>a\<close> calls before \<open>cs\<close>.
\<close>

fun gets_since_reset :: "nat \<Rightarrow> ('k, 'v) call list \<Rightarrow> nat" where
  "gets_since_reset a [] = a"
| "gets_since_reset a (Get t0 t1 k # cs) = gets_since_reset (Suc a) cs"
| "gets_since_reset a (ResetMetrics # cs) = gets_since_reset 0 cs"
| "gets_since_reset a (Put t0 te t1 k v # cs) = gets_since_reset a cs"
| "gets_since_reset a (Remove k # cs) = gets_since_reset a cs"
| "gets_since_reset a (Contains k # cs) = gets_since_reset a cs"
| "gets_since_reset a (Clear # cs) = gets_since_reset a cs"

section \<open>A scenario of the unit tests\<close>

text \<open>
  \<open>AccessUpdatesOrder\<close> of \<open>tests/test_lru_cache.cpp\<close>: a cache of capacity 3,
  \<open>put(1), put(2), put(3), get(1)\<close>, with clock readings 0, 1, 2, ... in program order,
  and the state these calls reach.
\<close>

definition demo_calls :: "(int, string) call list" where
  "demo_calls =
     [Put 0 1 2 1 ''one'', Put 3 4 5 2 ''two'', Put 6 7 8 3 ''three'', Get 9 10 1]"

definition demo_state :: "(int, string) lru_cache" where
  "demo_state =
     \<lparr>capacity = 3,
      lru_list = [(1, \<lparr>key = 1, val = ''one'', access_time = 1\<rparr>),
                  (3, \<lparr>key = 3, val = ''three'', access_time = 7\<rparr>),
                  (2, \<lparr>key = 2, val = ''two'', access_time = 4\<rparr>)],
      index = [1 \<mapsto> 1, 2 \<mapsto> 2, 3 \<mapsto> 3],
      hit_count = 1, miss_count = 0, total_access_time_ns = 7\<rparr>"

section \<open>The list primitives\<close>

lemma map_of_list_erase: "map_of (list_erase n xs) m = (if m = n then None else map_of xs m)"
  by (induction xs) (auto simp: list_erase_def)

lemma fst_list_erase: "fst ` set (list_erase n xs) = fst ` set xs - {n}"
  by (auto simp: list_erase_def)

lemma distinct_list_erase: "distinct (map fst xs) \<Longrightarrow> distinct (map fst (list_erase n xs))"
  by (simp add: list_erase_def distinct_map_filter)

lemma list_erase_absent: "n \<notin> fst ` set xs \<Longrightarrow> list_erase n xs = xs"
  unfolding list_erase_def filter_id_conv by force

lemma length_list_erase:
  "distinct (map fst xs) \<Longrightarrow> map_of xs n = Some e \<Longrightarrow> Suc (length (list_erase n xs)) = length xs"
proof (induction xs)
  case Nil
  then show ?case by simp
next
  case (Cons p xs)
  show ?case
  proof (cases "fst p = n")
    case True
    with Cons.prems have "list_erase n xs = xs"
      by (intro list_erase_absent) simp
    with True show ?thesis by (simp add: list_erase_def)
  next
    case False
    with Cons show ?thesis by (cases p) (auto simp: list_erase_def)
  qed
qed

lemma list_erase_last:
  "distinct (map fst xs) \<Longrightarrow> xs \<noteq> [] \<Longrightarrow> list_erase (fst (last xs)) xs = butlast xs"
  by (cases xs rule: rev_cases) (force simp: list_erase_def filter_id_conv)+

lemma list_erase_head:
  "distinct (map fst ((n, e) # xs)) \<Longrightarrow> list_erase n ((n, e) # xs) = xs"
  by (auto simp: list_erase_def filter_id_conv)

lemma map_of_assign_value:
  "map_of (assign_value n v xs) m =
     (if m = n then map_option (\<lambda>e. e\<lparr>val := v\<rparr>) (map_of xs m) else map_of xs m)"
  by (induction xs) (auto simp: assign_value_def)

lemma fst_assign_value: "map fst (assign_value n v xs) = map fst xs"
  by (simp add: assign_value_def)

lemma length_assign_value: "length (assign_value n v xs) = length xs"
  by (simp add: assign_value_def)

lemma list_erase_assign_value: "list_erase n (assign_value n v xs) = list_erase n xs"
  by (induction xs) (auto simp: list_erase_def assign_value_def)

lemma list_begin_assign_value: "list_begin (assign_value n v xs) = list_begin xs"
  by (cases xs rule: list_begin.cases) (auto simp: assign_value_def)

lemma list_begin_Some: "list_begin xs = Some n \<Longrightarrow> \<exists>e ys. xs = (n, e) # ys"
  by (cases xs rule: list_begin.cases) auto

lemma max_node_ge: "(n, e) \<in> set xs \<Longrightarrow> n \<le> max_node xs"
  by (induction xs rule: max_node.induct) auto

lemma new_node_fresh: "new_node xs \<notin> fst ` set xs"
  using max_node_ge [of "new_node xs" _ xs] by (auto simp: new_node_def)

lemma map_of_new_node: "map_of xs (new_node xs) = None"
  using new_node_fresh [of xs] by (simp add: map_of_eq_None_iff)

lemma size_ge_capacity:
  "n \<le> unat (c :: size_t) \<Longrightarrow> (c \<le> of_nat n) = (n = unat c)"
proof -
  assume le: "n \<le> unat c"
  have "unat c < 2 ^ 64" using unsigned_less [of c] by simp
  with le have "unat (of_nat n :: size_t) = n"
    by (simp add: unat_of_nat)
  with le show ?thesis by (auto simp: word_le_nat_alt)
qed

lemma size_le_capacity:
  "n \<le> unat (c :: size_t) \<Longrightarrow> (of_nat n :: size_t) \<le> c"
proof -
  assume le: "n \<le> unat c"
  have "unat c < 2 ^ 64" using unsigned_less [of c] by simp
  with le have "unat (of_nat n :: size_t) = n"
    by (simp add: unat_of_nat)
  with le show ?thesis by (auto simp: word_le_nat_alt)
qed

section \<open>What each operation computes\<close>

lemma evict_not_full:
  assumes "length (lru_list s) < unat (capacity s)"
  shows "evict_if_needed_unsafe s = Some s"
proof -
  from assms have "\<not> capacity s \<le> size_c s"
    using size_ge_capacity [of "length (lru_list s)" "capacity s"] by (simp add: size_c_def)
  then show ?thesis by (subst evict_if_needed_unsafe.simps) simp
qed

lemma evict_full:
  assumes "capacity s \<noteq> 0" and "length (lru_list s) = unat (capacity s)"
    and "distinct (map fst (lru_list s))"
  shows "evict_if_needed_unsafe s = Some (evict_last s)"
proof -
  from assms(1) have pos: "unat (capacity s) \<noteq> 0"
    by (simp add: unat_eq_0)
  with assms(2) have ne: "lru_list s \<noteq> []" by auto
  from assms(2) have full: "capacity s \<le> size_c s"
    using size_ge_capacity [of "length (lru_list s)" "capacity s"] by (simp add: size_c_def)
  have erase: "list_erase (fst (last (lru_list s))) (lru_list s) = butlast (lru_list s)"
    using assms(3) ne by (rule list_erase_last)
  have "length (lru_list (evict_last s)) < unat (capacity (evict_last s))"
    using assms(2) pos by (simp add: evict_last_def)
  then have "evict_if_needed_unsafe (evict_last s) = Some (evict_last s)"
    by (rule evict_not_full)
  with full ne erase show ?thesis
    by (subst evict_if_needed_unsafe.simps) (simp add: evict_last_def)
qed

lemma evict_inv:
  assumes "cache_inv s"
  shows "evict_if_needed_unsafe s =
           Some (if length (lru_list s) = unat (capacity s) then evict_last s else s)"
  using assms evict_full [of s] evict_not_full [of s]
  by (auto simp: cache_inv_def linked_def)

lemma move_to_front_eq:
  assumes "distinct (map fst (lru_list s))" and "deref it (lru_list s) = Some e"
  shows "move_to_front_unsafe it s = Some (s\<lparr>lru_list := (it, e) # list_erase it (lru_list s)\<rparr>)"
proof (cases "list_begin (lru_list s) = Some it")
  case True
  then obtain e' ys where xs: "lru_list s = (it, e') # ys"
    using list_begin_Some by blast
  with assms(2) have "e' = e" by (simp add: deref_def)
  with xs assms(1) have "(it, e) # list_erase it (lru_list s) = lru_list s"
    using list_erase_head [of it e ys] by simp
  with True show ?thesis by (simp add: move_to_front_unsafe_def)
next
  case False
  then have "Some it \<noteq> list_begin (lru_list s)" by auto
  with assms(2) show ?thesis by (simp add: move_to_front_unsafe_def splice_front_def)
qed

lemma linked_deref:
  "linked s \<Longrightarrow> index s k = Some it \<Longrightarrow> \<exists>e. deref it (lru_list s) = Some e \<and> key e = k"
  by (simp add: linked_def)

lemma get_miss:
  "index s k = None \<Longrightarrow>
   get t0 t1 k s =
     Some (None, s\<lparr>miss_count := miss_count s + 1,
                    total_access_time_ns := total_access_time_ns s + word_of_int (t1 - t0)\<rparr>)"
  by (simp add: get_def update_access_metrics_def)

lemma get_hit:
  assumes "linked s" and "index s k = Some it" and "deref it (lru_list s) = Some e"
  shows "get t0 t1 k s =
     Some (Some (val e),
           s\<lparr>hit_count := hit_count s + 1,
             lru_list := (it, e) # list_erase it (lru_list s),
             total_access_time_ns := total_access_time_ns s + word_of_int (t1 - t0)\<rparr>)"
proof -
  from assms(1) have d: "distinct (map fst (lru_list (s\<lparr>hit_count := hit_count s + 1\<rparr>)))"
    by (simp add: linked_def)
  from assms(3) have "deref it (lru_list (s\<lparr>hit_count := hit_count s + 1\<rparr>)) = Some e"
    by simp
  from move_to_front_eq [OF d this] assms(2) show ?thesis
    by (simp add: get_def update_access_metrics_def deref_def)
qed

lemma put_update:
  assumes "linked s" and "index s k = Some it" and "deref it (lru_list s) = Some e"
  shows "put t0 te t1 k v s =
     Some (True,
           s\<lparr>lru_list := (it, e\<lparr>val := v\<rparr>) # list_erase it (lru_list s),
             total_access_time_ns := total_access_time_ns s + word_of_int (t1 - t0)\<rparr>)"
proof -
  let ?s = "s\<lparr>lru_list := assign_value it v (lru_list s)\<rparr>"
  from assms(1) have d: "distinct (map fst (lru_list ?s))"
    by (simp add: linked_def fst_assign_value)
  from assms(3) have "deref it (lru_list ?s) = Some (e\<lparr>val := v\<rparr>)"
    by (simp add: deref_def map_of_assign_value)
  from move_to_front_eq [OF d this] assms(2,3) show ?thesis
    by (simp add: put_def update_access_metrics_def list_erase_assign_value)
qed

lemma put_insert:
  assumes "cache_inv s" and "index s k = None"
  shows "put t0 te t1 k v s =
     Some (True,
       (let s' = (if length (lru_list s) = unat (capacity s) then evict_last s else s) in
        s'\<lparr>lru_list := (new_node (lru_list s'), \<lparr>key = k, val = v, access_time = te\<rparr>) # lru_list s',
           index := (index s')(k \<mapsto> new_node (lru_list s')),
           total_access_time_ns := total_access_time_ns s + word_of_int (t1 - t0)\<rparr>))"
  using assms(2) evict_inv [OF assms(1)]
  by (simp add: put_def update_access_metrics_def emplace_front_def evict_last_def Let_def)

lemma remove_absent: "index s k = None \<Longrightarrow> remove_c k s = Some (False, s)"
  by (simp add: remove_c_def)

lemma remove_present:
  assumes "index s k = Some it" and "deref it (lru_list s) = Some e"
  shows "remove_c k s =
     Some (True, s\<lparr>lru_list := list_erase it (lru_list s), index := (index s)(k := None)\<rparr>)"
  using assms by (simp add: remove_c_def)

section \<open>Preservation of the invariant\<close>

lemma linked_relink:
  assumes "linked s" and "deref it (lru_list s) = Some e" and "key e' = key e"
    and "lru_list s' = (it, e') # list_erase it (lru_list s)" and "index s' = index s"
  shows "linked s'"
proof -
  from assms(1) have d: "distinct (map fst (lru_list s))"
    and ix: "\<And>k n. index s k = Some n \<longleftrightarrow> (\<exists>x. deref n (lru_list s) = Some x \<and> key x = k)"
    by (simp_all add: linked_def)
  have "distinct (map fst (lru_list s'))"
    using d by (simp add: assms(4) fst_list_erase distinct_list_erase)
  moreover have "index s' k = Some n \<longleftrightarrow> (\<exists>x. deref n (lru_list s') = Some x \<and> key x = k)"
    for k n
    using assms(2,3) by (auto simp: assms(4,5) ix deref_def map_of_list_erase)
  ultimately show ?thesis by (simp add: linked_def)
qed

lemma linked_erase:
  assumes "linked s" and "index s k = Some it"
    and "lru_list s' = list_erase it (lru_list s)" and "index s' = (index s)(k := None)"
  shows "linked s'"
proof -
  from assms(1) have d: "distinct (map fst (lru_list s))"
    and ix: "\<And>k n. index s k = Some n \<longleftrightarrow> (\<exists>x. deref n (lru_list s) = Some x \<and> key x = k)"
    by (simp_all add: linked_def)
  have "distinct (map fst (lru_list s'))"
    using d by (simp add: assms(3) distinct_list_erase)
  moreover have "index s' k' = Some n \<longleftrightarrow> (\<exists>x. deref n (lru_list s') = Some x \<and> key x = k')"
    for k' n
  proof (cases "k' = k")
    case True
    have "\<not> (\<exists>x. deref n (lru_list s') = Some x \<and> key x = k)"
      using assms(2) ix [of k n] by (auto simp: assms(3) deref_def map_of_list_erase)
    with True show ?thesis by (simp add: assms(4))
  next
    case False
    have "n \<noteq> it" if "index s k' = Some n"
      using that assms(2) False ix [of k' n] ix [of k it] by auto
    with False show ?thesis
      using ix [of k' n] by (auto simp: assms(3,4) deref_def map_of_list_erase)
  qed
  ultimately show ?thesis by (simp add: linked_def)
qed

lemma linked_last:
  assumes "linked s" and "lru_list s \<noteq> []"
  shows "index s (key (snd (last (lru_list s)))) = Some (fst (last (lru_list s)))"
proof -
  from assms(2) have "(fst (last (lru_list s)), snd (last (lru_list s))) \<in> set (lru_list s)"
    by simp
  with assms(1) have "deref (fst (last (lru_list s))) (lru_list s) = Some (snd (last (lru_list s)))"
    by (simp add: linked_def deref_def)
  with assms(1) show ?thesis by (auto simp: linked_def)
qed

lemma linked_evict_last:
  assumes "linked s" and "lru_list s \<noteq> []"
  shows "linked (evict_last s)"
proof (rule linked_erase [OF assms(1) linked_last [OF assms]])
  from assms show "lru_list (evict_last s) = list_erase (fst (last (lru_list s))) (lru_list s)"
    by (simp add: evict_last_def linked_def list_erase_last)
  show "index (evict_last s) = (index s)(key (snd (last (lru_list s))) := None)"
    by (simp add: evict_last_def)
qed

lemma linked_insert:
  assumes "linked s" and "index s k = None"
    and "lru_list s' = (new_node (lru_list s), e) # lru_list s" and "key e = k"
    and "index s' = (index s)(k \<mapsto> new_node (lru_list s))"
  shows "linked s'"
proof -
  from assms(1) have d: "distinct (map fst (lru_list s))"
    and ix: "\<And>k n. index s k = Some n \<longleftrightarrow> (\<exists>x. deref n (lru_list s) = Some x \<and> key x = k)"
    by (simp_all add: linked_def)
  have "distinct (map fst (lru_list s'))"
    using d new_node_fresh [of "lru_list s"] by (simp add: assms(3))
  moreover have "index s' k' = Some n \<longleftrightarrow> (\<exists>x. deref n (lru_list s') = Some x \<and> key x = k')"
    for k' n
    using assms(2,4) ix [of k' n] ix [of k n] map_of_new_node [of "lru_list s"]
    by (auto simp: assms(3,5) deref_def)
  ultimately show ?thesis by (simp add: linked_def)
qed

lemma linked_frame:
  "lru_list s' = lru_list s \<Longrightarrow> index s' = index s \<Longrightarrow> linked s' = linked s"
  by (simp add: linked_def)

lemma cache_inv_relink:
  assumes "cache_inv s" and "deref it (lru_list s) = Some e" and "key e' = key e"
    and "lru_list s' = (it, e') # list_erase it (lru_list s)" and "index s' = index s"
    and "capacity s' = capacity s"
  shows "cache_inv s'"
proof -
  from assms(1) have l: "linked s" by (simp add: cache_inv_def)
  then have "distinct (map fst (lru_list s))" by (simp add: linked_def)
  then have "length (lru_list s') = length (lru_list s)"
    using assms(2) length_list_erase [of "lru_list s" it e] by (simp add: assms(4) deref_def)
  moreover have "linked s'"
    using l assms(2-5) by (rule linked_relink)
  ultimately show ?thesis using assms(1,6) by (simp add: cache_inv_def)
qed

lemma get_inv:
  assumes "cache_inv s"
  shows "\<exists>r s'. get t0 t1 k s = Some (r, s') \<and> cache_inv s' \<and> capacity s' = capacity s"
proof (cases "index s k")
  case None
  have "cache_inv (s\<lparr>miss_count := miss_count s + 1,
                     total_access_time_ns := total_access_time_ns s + word_of_int (t1 - t0)\<rparr>)"
    using assms by (simp add: cache_inv_def linked_def)
  with None show ?thesis by (simp add: get_miss)
next
  case (Some it)
  from assms have l: "linked s" by (simp add: cache_inv_def)
  from linked_deref [OF l Some] obtain e where e: "deref it (lru_list s) = Some e" "key e = k"
    by blast
  let ?s = "s\<lparr>hit_count := hit_count s + 1,
             lru_list := (it, e) # list_erase it (lru_list s),
             total_access_time_ns := total_access_time_ns s + word_of_int (t1 - t0)\<rparr>"
  have "cache_inv ?s"
    by (rule cache_inv_relink [OF assms e(1), of e]) simp_all
  then show ?thesis by (simp add: get_hit [OF l Some e(1)])
qed

lemma cache_inv_evict_last:
  assumes "cache_inv s" and "length (lru_list s) = unat (capacity s)"
  shows "cache_inv (evict_last s)"
proof -
  from assms have ne: "lru_list s \<noteq> []"
    by (auto simp: cache_inv_def unat_eq_0)
  from assms(1) have "linked (evict_last s)"
    using linked_evict_last [OF _ ne] by (simp add: cache_inv_def)
  moreover have "length (lru_list (evict_last s)) \<le> length (lru_list s)"
    by (simp add: evict_last_def)
  moreover have "capacity (evict_last s) = capacity s"
    by (simp add: evict_last_def)
  ultimately show ?thesis using assms(1) by (simp add: cache_inv_def)
qed

lemma cache_inv_insert:
  assumes "cache_inv s" and "length (lru_list s) < unat (capacity s)" and "index s k = None"
    and "lru_list s' = (new_node (lru_list s), e) # lru_list s" and "key e = k"
    and "index s' = (index s)(k \<mapsto> new_node (lru_list s))" and "capacity s' = capacity s"
  shows "cache_inv s'"
proof -
  from assms(1) have "linked s" by (simp add: cache_inv_def)
  then have "linked s'" using assms(3-6) by (rule linked_insert)
  with assms(1,2) show ?thesis by (simp add: cache_inv_def assms(4,7))
qed

lemma put_inv:
  assumes "cache_inv s"
  shows "\<exists>s'. put t0 te t1 k v s = Some (True, s') \<and> cache_inv s' \<and> capacity s' = capacity s"
proof (cases "index s k")
  case None
  define s1 where "s1 = (if length (lru_list s) = unat (capacity s) then evict_last s else s)"
  have inv1: "cache_inv s1"
    using assms cache_inv_evict_last [of s] by (simp add: s1_def)
  have cap1: "capacity s1 = capacity s"
    by (simp add: s1_def evict_last_def)
  have len1: "length (lru_list s1) < unat (capacity s1)"
  proof (cases "length (lru_list s) = unat (capacity s)")
    case True
    with assms have "length (lru_list s) \<noteq> 0" by (auto simp: cache_inv_def unat_eq_0)
    with True show ?thesis by (simp add: s1_def evict_last_def)
  next
    case False
    with assms show ?thesis by (simp add: s1_def cache_inv_def)
  qed
  have ix1: "index s1 k = None"
    using None by (simp add: s1_def evict_last_def)
  let ?s = "s1\<lparr>lru_list := (new_node (lru_list s1), \<lparr>key = k, val = v, access_time = te\<rparr>) # lru_list s1,
              index := (index s1)(k \<mapsto> new_node (lru_list s1)),
              total_access_time_ns := total_access_time_ns s + word_of_int (t1 - t0)\<rparr>"
  have "cache_inv ?s"
    by (rule cache_inv_insert [OF inv1 len1 ix1, where e = "\<lparr>key = k, val = v, access_time = te\<rparr>"])
      simp_all
  moreover have "put t0 te t1 k v s = Some (True, ?s)"
    using put_insert [OF assms None, of t0 te t1 v] by (simp add: s1_def Let_def)
  ultimately show ?thesis using cap1 by simp
next
  case (Some it)
  from assms have l: "linked s" by (simp add: cache_inv_def)
  from linked_deref [OF l Some] obtain e where e: "deref it (lru_list s) = Some e" "key e = k"
    by blast
  let ?s = "s\<lparr>lru_list := (it, e\<lparr>val := v\<rparr>) # list_erase it (lru_list s),
             total_access_time_ns := total_access_time_ns s + word_of_int (t1 - t0)\<rparr>"
  have "cache_inv ?s"
    by (rule cache_inv_relink [OF assms e(1), of "e\<lparr>val := v\<rparr>"]) simp_all
  then show ?thesis by (simp add: put_update [OF l Some e(1)])
qed

lemma remove_inv:
  assumes "cache_inv s"
  shows "\<exists>r s'. remove_c k s = Some (r, s') \<and> cache_inv s' \<and> capacity s' = capacity s"
proof (cases "index s k")
  case None
  with assms show ?thesis by (auto simp: remove_absent)
next
  case (Some it)
  from assms have l: "linked s" by (simp add: cache_inv_def)
  from linked_deref [OF l Some] obtain e where e: "deref it (lru_list s) = Some e" "key e = k"
    by blast
  let ?s = "s\<lparr>lru_list := list_erase it (lru_list s), index := (index s)(k := None)\<rparr>"
  have "linked ?s"
    by (rule linked_erase [OF l Some]) simp_all
  moreover have "length (lru_list ?s) \<le> length (lru_list s)"
    by (simp add: list_erase_def)
  ultimately have "cache_inv ?s"
    using assms by (simp add: cache_inv_def)
  then show ?thesis by (auto simp: remove_present [OF Some e(1)])
qed

lemma cache_inv_clear: "cache_inv s \<Longrightarrow> cache_inv (clear s)"
  by (simp add: cache_inv_def linked_def clear_def deref_def)

lemma cache_inv_reset_metrics: "cache_inv s \<Longrightarrow> cache_inv (reset_metrics s)"
  by (simp add: cache_inv_def linked_def reset_metrics_def)

lemma step_inv:
  assumes "cache_inv s"
  shows "\<exists>s'. step c s = Some s' \<and> cache_inv s' \<and> capacity s' = capacity s"
proof (cases c)
  case (Get t0 t1 k)
  with get_inv [OF assms, of t0 t1 k] show ?thesis by auto
next
  case (Put t0 te t1 k v)
  with put_inv [OF assms, of t0 te t1 k v] show ?thesis by auto
next
  case (Remove k)
  with remove_inv [OF assms, of k] show ?thesis by auto
next
  case (Contains k)
  with assms show ?thesis by simp
next
  case Clear
  with cache_inv_clear [OF assms] show ?thesis by (simp add: clear_def)
next
  case ResetMetrics
  with cache_inv_reset_metrics [OF assms] show ?thesis by (simp add: reset_metrics_def)
qed

lemma run_inv:
  "cache_inv s \<Longrightarrow> \<exists>s'. run cs s = Some s' \<and> cache_inv s' \<and> capacity s' = capacity s"
proof (induction cs arbitrary: s)
  case Nil
  then show ?case by simp
next
  case (Cons c cs)
  from step_inv [OF Cons.prems, of c] obtain s1
    where s1: "step c s = Some s1" "cache_inv s1" "capacity s1 = capacity s"
    by blast
  from Cons.IH [OF s1(2)] s1 show ?case by auto
qed

lemma cache_inv_new:
  "c \<noteq> 0 \<Longrightarrow> \<exists>s. ThreadSafeLRUCache c = Inr s \<and> cache_inv s \<and> capacity s = c"
  by (simp add: ThreadSafeLRUCache_def cache_inv_def linked_def deref_def)

lemma cache_after_inv:
  assumes "C \<noteq> 0"
  shows "\<exists>s. cache_after C cs = Some s \<and> cache_inv s \<and> capacity s = C"
proof -
  from cache_inv_new [OF assms] obtain s0 :: "('a, 'b) lru_cache"
    where s0: "ThreadSafeLRUCache C = Inr s0" "cache_inv s0" "capacity s0 = C"
    by blast
  from run_inv [OF s0(2), of cs] s0 show ?thesis by (auto simp: cache_after_def)
qed

section \<open>Evaluation of the scenario\<close>

lemmas eval_defs = cache_after_def ThreadSafeLRUCache_def put_def get_def remove_c_def
  evict_if_needed_unsafe.simps size_c_def update_access_metrics_def emplace_front_def
  new_node_def move_to_front_unsafe_def splice_front_def deref_def list_erase_def
  assign_value_def clear_def reset_metrics_def word_le_nat_alt

lemma demo_reached: "cache_after 3 demo_calls = Some demo_state"
  by (simp add: demo_calls_def demo_state_def eval_defs)
    (simp add: numeral_2_eq_2 numeral_3_eq_3)

lemma cache_inv_size:
  assumes "cache_inv s"
  shows "size_c s \<le> capacity s" and "unat (size_c s) = length (lru_list s)"
proof -
  from assms have le: "length (lru_list s) \<le> unat (capacity s)"
    by (simp add: cache_inv_def)
  then show "size_c s \<le> capacity s"
    unfolding size_c_def by (rule size_le_capacity)
  have "unat (capacity s) < 2 ^ 64"
    using unsigned_less [of "capacity s"] by simp
  with le show "unat (size_c s) = length (lru_list s)"
    by (simp add: size_c_def unat_of_nat)
qed

section \<open>The counters\<close>

lemma evict_counters:
  "evict_if_needed_unsafe s = Some s' \<Longrightarrow>
   hit_count s' = hit_count s \<and> miss_count s' = miss_count s \<and>
   total_access_time_ns s' = total_access_time_ns s \<and> capacity s' = capacity s"
proof (induction s rule: evict_if_needed_unsafe.induct)
  case (1 s)
  show ?case
  proof (cases "capacity s \<le> size_c s")
    case True
    with "1.prems" have ne: "lru_list s \<noteq> []"
      by (subst (asm) evict_if_needed_unsafe.simps) (auto split: if_splits)
    with True "1.prems" have
      "evict_if_needed_unsafe
         (s\<lparr>index := (index s)(key (snd (last (lru_list s))) := None),
            lru_list := list_erase (fst (last (lru_list s))) (lru_list s)\<rparr>) = Some s'"
      by (subst (asm) evict_if_needed_unsafe.simps) simp
    from "1.IH" [OF True ne this] show ?thesis by simp
  next
    case False
    with "1.prems" show ?thesis
      by (subst (asm) evict_if_needed_unsafe.simps) simp
  qed
qed

lemma move_to_front_counters:
  "move_to_front_unsafe it s = Some s' \<Longrightarrow>
   hit_count s' = hit_count s \<and> miss_count s' = miss_count s \<and>
   total_access_time_ns s' = total_access_time_ns s \<and> capacity s' = capacity s \<and>
   index s' = index s"
  by (auto simp: move_to_front_unsafe_def split: if_splits option.splits)

lemma get_counters:
  assumes "get t0 t1 k s = Some (r, s')"
  shows "(r = None \<and> index s k = None \<and>
            miss_count s' = miss_count s + 1 \<and> hit_count s' = hit_count s) \<or>
         (r \<noteq> None \<and> index s k \<noteq> None \<and>
            hit_count s' = hit_count s + 1 \<and> miss_count s' = miss_count s)"
proof (cases "index s k")
  case None
  with assms show ?thesis by (auto simp: get_miss)
next
  case (Some it)
  with assms obtain s1 where
    "move_to_front_unsafe it (s\<lparr>hit_count := hit_count s + 1\<rparr>) = Some s1"
    and "r \<noteq> None" and "s' = update_access_metrics t0 t1 s1"
    by (auto simp: get_def split: option.splits)
  with move_to_front_counters [OF this(1)] Some show ?thesis
    by (simp add: update_access_metrics_def)
qed

lemma put_counters:
  assumes "put t0 te t1 k v s = Some (r, s')"
  shows "hit_count s' = hit_count s \<and> miss_count s' = miss_count s"
proof (cases "index s k")
  case None
  with assms obtain s1 where "evict_if_needed_unsafe s = Some s1"
    and "hit_count s' = hit_count s1" and "miss_count s' = miss_count s1"
    by (auto simp: put_def update_access_metrics_def split: option.splits)
  with evict_counters [OF this(1)] show ?thesis by simp
next
  case (Some it)
  with assms obtain s1 where
    "move_to_front_unsafe it (s\<lparr>lru_list := assign_value it v (lru_list s)\<rparr>) = Some s1"
    and "s' = update_access_metrics t0 t1 s1"
    by (auto simp: put_def split: option.splits)
  with move_to_front_counters [OF this(1)] show ?thesis
    by (simp add: update_access_metrics_def)
qed

lemma remove_counters:
  "remove_c k s = Some (r, s') \<Longrightarrow>
   hit_count s' = hit_count s \<and> miss_count s' = miss_count s \<and>
   total_access_time_ns s' = total_access_time_ns s"
  by (auto simp: remove_c_def split: option.splits)

lemma unat_succ:
  fixes w :: size_t
  assumes "Suc (unat w) < 2 ^ 64"
  shows "unat (w + 1) = Suc (unat w)"
  using assms by (simp add: unat_word_ariths)

lemma run_counts_word:
  "run cs s = Some s' \<Longrightarrow> hit_count s + miss_count s = of_nat a \<Longrightarrow>
   hit_count s' + miss_count s' = of_nat (gets_since_reset a cs)"
proof (induction a cs arbitrary: s rule: gets_since_reset.induct)
  case (1 a)
  then show ?case by simp
next
  case (2 a t0 t1 k cs)
  from "2.prems"(1) obtain r s1 where g: "get t0 t1 k s = Some (r, s1)" and r: "run cs s1 = Some s'"
    by (auto split: option.splits)
  from get_counters [OF g] "2.prems"(2) have "hit_count s1 + miss_count s1 = of_nat (Suc a)"
    by (auto simp: algebra_simps)
  from "2.IH" [OF r this] show ?case by simp
next
  case (3 a cs)
  then show ?case by (auto simp: reset_metrics_def)
next
  case (4 a t0 te t1 k v cs)
  from "4.prems"(1) obtain r s1 where g: "put t0 te t1 k v s = Some (r, s1)" and r: "run cs s1 = Some s'"
    by (auto split: option.splits)
  from put_counters [OF g] "4.prems"(2) have "hit_count s1 + miss_count s1 = of_nat a"
    by simp
  from "4.IH" [OF r this] show ?case by simp
next
  case (5 a k cs)
  from "5.prems"(1) obtain r s1 where g: "remove_c k s = Some (r, s1)" and r: "run cs s1 = Some s'"
    by (auto split: option.splits)
  from remove_counters [OF g] "5.prems"(2) have "hit_count s1 + miss_count s1 = of_nat a"
    by simp
  from "5.IH" [OF r this] show ?case by simp
next
  case (6 a k cs)
  then show ?case by simp
next
  case (7 a cs)
  then show ?case by (simp add: clear_def)
qed

lemma run_counts_nat:
  "run cs s = Some s' \<Longrightarrow>
   (a < 2 ^ 64 \<longrightarrow> unat (hit_count s) + unat (miss_count s) = a) \<Longrightarrow>
   gets_since_reset a cs < 2 ^ 64 \<Longrightarrow>
   unat (hit_count s') + unat (miss_count s') = gets_since_reset a cs"
proof (induction a cs arbitrary: s rule: gets_since_reset.induct)
  case (1 a)
  then show ?case by simp
next
  case (2 a t0 t1 k cs)
  from "2.prems"(1) obtain r s1 where g: "get t0 t1 k s = Some (r, s1)" and r: "run cs s1 = Some s'"
    by (auto split: option.splits)
  have "Suc a < 2 ^ 64 \<longrightarrow> unat (hit_count s1) + unat (miss_count s1) = Suc a"
  proof
    assume lt: "Suc a < (2::nat) ^ 64"
    with "2.prems"(2) have a: "unat (hit_count s) + unat (miss_count s) = a" by simp
    with lt have "Suc (unat (hit_count s)) < 2 ^ 64" "Suc (unat (miss_count s)) < 2 ^ 64"
      by simp_all
    then have "unat (hit_count s + 1) = Suc (unat (hit_count s))"
      "unat (miss_count s + 1) = Suc (unat (miss_count s))"
      by (simp_all add: unat_succ)
    with get_counters [OF g] a show "unat (hit_count s1) + unat (miss_count s1) = Suc a"
      by auto
  qed
  from "2.IH" [OF r this] "2.prems"(3) show ?case by simp
next
  case (3 a cs)
  then show ?case by (auto simp: reset_metrics_def)
next
  case (4 a t0 te t1 k v cs)
  from "4.prems"(1) obtain r s1 where g: "put t0 te t1 k v s = Some (r, s1)" and r: "run cs s1 = Some s'"
    by (auto split: option.splits)
  from put_counters [OF g] "4.prems"(2)
  have "a < 2 ^ 64 \<longrightarrow> unat (hit_count s1) + unat (miss_count s1) = a"
    by simp
  from "4.IH" [OF r this] "4.prems"(3) show ?case by simp
next
  case (5 a k cs)
  from "5.prems"(1) obtain r s1 where g: "remove_c k s = Some (r, s1)" and r: "run cs s1 = Some s'"
    by (auto split: option.splits)
  from remove_counters [OF g] "5.prems"(2)
  have "a < 2 ^ 64 \<longrightarrow> unat (hit_count s1) + unat (miss_count s1) = a"
    by simp
  from "5.IH" [OF r this] "5.prems"(3) show ?case by simp
next
  case (6 a k cs)
  then show ?case by simp
next
  case (7 a cs)
  then show ?case by (simp add: clear_def)
qed

lemma cache_after_Some:
  "cache_after C cs = Some s \<Longrightarrow>
   \<exists>s0. ThreadSafeLRUCache C = Inr s0 \<and> run cs s0 = Some s \<and> C \<noteq> 0 \<and>
        hit_count s0 = 0 \<and> miss_count s0 = 0"
  by (auto simp: cache_after_def ThreadSafeLRUCache_def split: if_splits)

lemma cache_after_reached:
  assumes "cache_after C cs = Some s"
  shows "cache_inv s" and "capacity s = C"
proof -
  from assms have "C \<noteq> 0" using cache_after_Some by blast
  from cache_after_inv [OF this, of cs] assms show "cache_inv s" and "capacity s = C"
    by auto
qed

section \<open>Keys of the list and of the index\<close>

lemma linked_node:
  assumes "linked s" and "(n, e) \<in> set (lru_list s)"
  shows "deref n (lru_list s) = Some e" and "index s (key e) = Some n"
proof -
  from assms show d: "deref n (lru_list s) = Some e"
    by (simp add: linked_def deref_def)
  with assms(1) show "index s (key e) = Some n"
    by (auto simp: linked_def)
qed

lemma linked_node_iff:
  assumes "linked s" and "index s k = Some it" and "(n, e) \<in> set (lru_list s)"
  shows "n = it \<longleftrightarrow> key e = k"
proof
  assume "n = it"
  with linked_deref [OF assms(1,2)] linked_node(1) [OF assms(1,3)] show "key e = k"
    by auto
next
  assume "key e = k"
  with linked_node(2) [OF assms(1,3)] assms(2) show "n = it" by simp
qed

lemma keys_list_erase:
  assumes "linked s" and "index s k = Some it"
  shows "map (\<lambda>p. key (snd p)) (list_erase it (lru_list s)) = filter (\<lambda>x. x \<noteq> k) (keys_of s)"
proof -
  have "filter (\<lambda>p. fst p \<noteq> it) (lru_list s) = filter (\<lambda>p. key (snd p) \<noteq> k) (lru_list s)"
  proof (rule filter_cong [OF refl])
    fix p assume "p \<in> set (lru_list s)"
    then have "(fst p, snd p) \<in> set (lru_list s)" by simp
    from linked_node_iff [OF assms this] show "(fst p \<noteq> it) = (key (snd p) \<noteq> k)"
      by simp
  qed
  then show ?thesis
    by (simp add: keys_of_def list_erase_def filter_map comp_def)
qed

lemma linked_distinct_keys:
  assumes "linked s"
  shows "distinct (keys_of s)"
proof -
  from assms have d: "distinct (lru_list s)"
    by (auto simp: linked_def distinct_map)
  have "inj_on (\<lambda>p. key (snd p)) (set (lru_list s))"
  proof (rule inj_onI)
    fix p q
    assume p: "p \<in> set (lru_list s)" and q: "q \<in> set (lru_list s)"
      and eq: "key (snd p) = key (snd q)"
    from p q have p': "(fst p, snd p) \<in> set (lru_list s)" and q': "(fst q, snd q) \<in> set (lru_list s)"
      by simp_all
    from linked_node(2) [OF assms p'] linked_node(2) [OF assms q'] eq
    have "fst p = fst q" by simp
    with linked_node(1) [OF assms p'] linked_node(1) [OF assms q'] have "snd p = snd q"
      by simp
    with \<open>fst p = fst q\<close> show "p = q" by (simp add: prod_eq_iff)
  qed
  with d show ?thesis by (simp add: keys_of_def distinct_map)
qed

lemma linked_dom:
  assumes "linked s"
  shows "dom (index s) = set (keys_of s)"
proof (rule set_eqI)
  fix k
  show "k \<in> dom (index s) \<longleftrightarrow> k \<in> set (keys_of s)"
  proof
    assume "k \<in> dom (index s)"
    then obtain it where "index s k = Some it" by auto
    from linked_deref [OF assms this] obtain e
      where "deref it (lru_list s) = Some e" and "key e = k"
      by blast
    then have "(it, e) \<in> set (lru_list s)"
      by (auto simp: deref_def dest: map_of_SomeD)
    with \<open>key e = k\<close> show "k \<in> set (keys_of s)"
      by (force simp: keys_of_def)
  next
    assume "k \<in> set (keys_of s)"
    then obtain n e where "(n, e) \<in> set (lru_list s)" and "key e = k"
      by (auto simp: keys_of_def)
    with linked_node(2) [OF assms this(1)] show "k \<in> dom (index s)"
      by auto
  qed
qed

lemma contains_keys: "linked s \<Longrightarrow> contains k s \<longleftrightarrow> k \<in> set (keys_of s)"
  using linked_dom [of s] by (auto simp: contains_def)

lemma filter_neq_remove1: "distinct xs \<Longrightarrow> filter (\<lambda>x. x \<noteq> k) xs = remove1 k xs"
  by (induction xs) (auto simp: filter_id_conv)

lemma full_iff:
  assumes "cache_inv s"
  shows "size_c s = capacity s \<longleftrightarrow> length (lru_list s) = unat (capacity s)"
  using cache_inv_size(2) [OF assms] by (auto simp: size_c_def)

section \<open>Calls on present and absent keys\<close>

lemma keys_relink:
  assumes "linked s" and "index s k = Some it" and "key e' = k"
    and "lru_list s' = (it, e') # list_erase it (lru_list s)"
  shows "keys_of s' = k # remove1 k (keys_of s)"
proof -
  have "keys_of s' = k # filter (\<lambda>x. x \<noteq> k) (keys_of s)"
    using keys_list_erase [OF assms(1,2)] assms(3) by (simp add: keys_of_def assms(4))
  with linked_distinct_keys [OF assms(1)] show ?thesis
    by (simp add: filter_neq_remove1)
qed

lemma put_present:
  assumes "cache_inv s" and "contains k s"
  shows "\<exists>it e. index s k = Some it \<and> deref it (lru_list s) = Some e \<and> key e = k \<and>
           put t0 te t1 k v s =
             Some (True, s\<lparr>lru_list := (it, e\<lparr>val := v\<rparr>) # list_erase it (lru_list s),
                           total_access_time_ns :=
                             total_access_time_ns s + word_of_int (t1 - t0)\<rparr>)"
proof -
  from assms(2) obtain it where it: "index s k = Some it" by (auto simp: contains_def)
  from assms(1) have l: "linked s" by (simp add: cache_inv_def)
  from linked_deref [OF l it] obtain e where e: "deref it (lru_list s) = Some e" "key e = k"
    by blast
  from put_update [OF l it e(1)] it e show ?thesis by blast
qed

lemma get_present:
  assumes "cache_inv s" and "contains k s"
  shows "\<exists>it e. index s k = Some it \<and> deref it (lru_list s) = Some e \<and> key e = k \<and>
           get t0 t1 k s =
             Some (Some (val e),
                   s\<lparr>hit_count := hit_count s + 1,
                     lru_list := (it, e) # list_erase it (lru_list s),
                     total_access_time_ns :=
                       total_access_time_ns s + word_of_int (t1 - t0)\<rparr>)"
proof -
  from assms(2) obtain it where it: "index s k = Some it" by (auto simp: contains_def)
  from assms(1) have l: "linked s" by (simp add: cache_inv_def)
  from linked_deref [OF l it] obtain e where e: "deref it (lru_list s) = Some e" "key e = k"
    by blast
  from get_hit [OF l it e(1)] it e show ?thesis by blast
qed

lemma length_relink:
  assumes "linked s" and "deref it (lru_list s) = Some e"
  shows "length ((it, e') # list_erase it (lru_list s)) = length (lru_list s)"
  using assms length_list_erase [of "lru_list s" it e] by (simp add: linked_def deref_def)

lemma put_absent_full:
  assumes "cache_inv s" and "index s k = None" and "length (lru_list s) = unat (capacity s)"
  shows "\<exists>s'. put t0 te t1 k v s = Some (True, s') \<and>
           keys_of s' = k # butlast (keys_of s) \<and>
           index s' = (index s)(last (keys_of s) := None, k \<mapsto> new_node (butlast (lru_list s))) \<and>
           length (lru_list s') = length (lru_list s)"
proof -
  from assms have ne: "lru_list s \<noteq> []"
    by (auto simp: cache_inv_def unat_eq_0)
  then have "last (keys_of s) = key (snd (last (lru_list s)))"
    and "Suc (length (lru_list s) - Suc 0) = length (lru_list s)"
    by (simp_all add: keys_of_def last_map)
  with put_insert [OF assms(1,2), of t0 te t1 v] assms(3) show ?thesis
    by (simp add: evict_last_def keys_of_def map_butlast)
qed

lemma put_absent_not_full:
  assumes "cache_inv s" and "index s k = None" and "length (lru_list s) \<noteq> unat (capacity s)"
  shows "\<exists>s'. put t0 te t1 k v s = Some (True, s') \<and> keys_of s' = k # keys_of s \<and>
           index s' = (index s)(k \<mapsto> new_node (lru_list s))"
  using put_insert [OF assms(1,2), of t0 te t1 v] assms(3) by (simp add: keys_of_def)

section \<open>Index and positions\<close>

lemma linked_position:
  assumes "linked s" and "index s k = Some it"
  shows "\<exists>i < length (lru_list s). fst (lru_list s ! i) = it \<and> keys_of s ! i = k"
proof -
  from linked_deref [OF assms] obtain e where "deref it (lru_list s) = Some e" and k: "key e = k"
    by blast
  then have "(it, e) \<in> set (lru_list s)"
    by (auto simp: deref_def dest: map_of_SomeD)
  then obtain i where i: "i < length (lru_list s)" "lru_list s ! i = (it, e)"
    by (auto simp: in_set_conv_nth)
  with k show ?thesis by (auto simp: keys_of_def)
qed

lemma linked_consistent: "linked s \<Longrightarrow> index_consistent s"
  unfolding index_consistent_def
  using linked_dom [of s] linked_distinct_keys [of s] linked_position [of s]
  by (simp add: linked_def)

lemma consistent_linked:
  assumes "index_consistent s"
  shows "linked s"
proof -
  from assms have dom: "dom (index s) = set (keys_of s)" and dk: "distinct (keys_of s)"
    and dn: "distinct (map fst (lru_list s))"
    and pos: "\<And>k it. index s k = Some it \<Longrightarrow>
        \<exists>i < length (lru_list s). fst (lru_list s ! i) = it \<and> keys_of s ! i = k"
    by (simp_all add: index_consistent_def)
  have "index s k = Some it \<longleftrightarrow> (\<exists>e. deref it (lru_list s) = Some e \<and> key e = k)" for k it
  proof
    assume "index s k = Some it"
    from pos [OF this] obtain i where i: "i < length (lru_list s)"
      "fst (lru_list s ! i) = it" "keys_of s ! i = k"
      by blast
    then have "(it, snd (lru_list s ! i)) \<in> set (lru_list s)"
      by (metis nth_mem prod.collapse)
    with dn have "deref it (lru_list s) = Some (snd (lru_list s ! i))"
      by (simp add: deref_def)
    with i show "\<exists>e. deref it (lru_list s) = Some e \<and> key e = k"
      by (simp add: keys_of_def)
  next
    assume "\<exists>e. deref it (lru_list s) = Some e \<and> key e = k"
    then obtain e where e: "(it, e) \<in> set (lru_list s)" "key e = k"
      by (auto simp: deref_def dest: map_of_SomeD)
    then obtain j where j: "j < length (lru_list s)" "lru_list s ! j = (it, e)"
      by (auto simp: in_set_conv_nth)
    with e have kj: "keys_of s ! j = k" by (simp add: keys_of_def)
    from e have "k \<in> set (keys_of s)" by (force simp: keys_of_def)
    with dom obtain it' where it': "index s k = Some it'" by auto
    from pos [OF this] obtain i where i: "i < length (lru_list s)"
      "fst (lru_list s ! i) = it'" "keys_of s ! i = k"
      by blast
    have "length (keys_of s) = length (lru_list s)"
      by (simp add: keys_of_def)
    with dk i(1,3) j(1) kj have "i = j"
      using nth_eq_iff_index_eq [of "keys_of s" i j] by simp
    with i j it' show "index s k = Some it" by simp
  qed
  with dn show ?thesis by (simp add: linked_def)
qed

lemma evict_linked:
  "linked s \<Longrightarrow> evict_if_needed_unsafe s = Some s' \<Longrightarrow>
   linked s' \<and> (index s k = None \<longrightarrow> index s' k = None)"
proof (induction s rule: evict_if_needed_unsafe.induct)
  case (1 s)
  show ?case
  proof (cases "capacity s \<le> size_c s")
    case True
    with "1.prems"(2) have ne: "lru_list s \<noteq> []"
      by (subst (asm) evict_if_needed_unsafe.simps) (auto split: if_splits)
    let ?s = "s\<lparr>index := (index s)(key (snd (last (lru_list s))) := None),
                lru_list := list_erase (fst (last (lru_list s))) (lru_list s)\<rparr>"
    from True ne "1.prems"(2) have ev: "evict_if_needed_unsafe ?s = Some s'"
      by (subst (asm) evict_if_needed_unsafe.simps) simp
    have "linked ?s"
      by (rule linked_erase [OF "1.prems"(1) linked_last [OF "1.prems"(1) ne]]) simp_all
    from "1.IH" [OF True ne this ev] show ?thesis by simp
  next
    case False
    with "1.prems" show ?thesis
      by (subst (asm) evict_if_needed_unsafe.simps) simp
  qed
qed

lemma step_linked:
  assumes "linked s" and "step c s = Some s'"
  shows "linked s'"
proof (cases c)
  case (Get t0 t1 k)
  show ?thesis
  proof (cases "index s k")
    case None
    with assms Get show ?thesis by (auto simp: get_miss linked_def)
  next
    case (Some it)
    from linked_deref [OF assms(1) Some] obtain e
      where e: "deref it (lru_list s) = Some e" "key e = k"
      by blast
    from assms(2) Get get_hit [OF assms(1) Some e(1), of t0 t1]
    have "lru_list s' = (it, e) # list_erase it (lru_list s)" "index s' = index s"
      by auto
    with linked_relink [OF assms(1) e(1) refl] show ?thesis by blast
  qed
next
  case (Put t0 te t1 k v)
  show ?thesis
  proof (cases "index s k")
    case None
    with assms(2) Put obtain s1 where ev: "evict_if_needed_unsafe s = Some s1"
      and xs: "lru_list s' = (new_node (lru_list s1), \<lparr>key = k, val = v, access_time = te\<rparr>) # lru_list s1"
      and ix: "index s' = (index s1)(k \<mapsto> new_node (lru_list s1))"
      by (auto simp: put_def update_access_metrics_def emplace_front_def split: option.splits)
    from evict_linked [OF assms(1) ev, of k] None have "linked s1" "index s1 k = None"
      by simp_all
    from linked_insert [OF this xs _ ix] show ?thesis by simp
  next
    case (Some it)
    from linked_deref [OF assms(1) Some] obtain e
      where e: "deref it (lru_list s) = Some e" "key e = k"
      by blast
    from assms(2) Put put_update [OF assms(1) Some e(1), of t0 te t1 v]
    have "lru_list s' = (it, e\<lparr>val := v\<rparr>) # list_erase it (lru_list s)" "index s' = index s"
      by auto
    with linked_relink [OF assms(1) e(1), of "e\<lparr>val := v\<rparr>"] show ?thesis by simp
  qed
next
  case (Remove k)
  show ?thesis
  proof (cases "index s k")
    case None
    with assms Remove show ?thesis by (simp add: remove_absent)
  next
    case (Some it)
    from linked_deref [OF assms(1) Some] obtain e
      where e: "deref it (lru_list s) = Some e"
      by blast
    from assms(2) Remove remove_present [OF Some e]
    have "lru_list s' = list_erase it (lru_list s)" "index s' = (index s)(k := None)"
      by auto
    from linked_erase [OF assms(1) Some this] show ?thesis .
  qed
next
  case (Contains k)
  with assms show ?thesis by simp
next
  case Clear
  with assms show ?thesis by (auto simp: clear_def linked_def deref_def)
next
  case ResetMetrics
  with assms show ?thesis by (auto simp: reset_metrics_def linked_def)
qed

section \<open>Stored time stamps\<close>

lemma stored_relink:
  assumes "deref it (lru_list s) = Some e" and "access_time e' = access_time e"
    and "lru_list s' = (it, e') # list_erase it (lru_list s)" and "index s' = index s"
  shows "stored_time k s' = stored_time k s"
  using assms(1,2)
  by (auto simp: stored_time_def assms(3,4) deref_def map_of_list_erase split: option.splits)

lemma stored_erase:
  assumes "linked s" and "index s k = Some it"
    and "lru_list s' = list_erase it (lru_list s)" and "index s' = (index s)(k := None)"
  shows "stored_time k' s' = (if k' = k then None else stored_time k' s)"
proof (cases "k' = k")
  case True
  then show ?thesis by (simp add: stored_time_def assms(4))
next
  case False
  have "n \<noteq> it" if "index s k' = Some n" for n
  proof
    assume "n = it"
    with that linked_deref [OF assms(1) that] linked_deref [OF assms(1,2)] False
    show False by auto
  qed
  with False show ?thesis
    by (auto simp: stored_time_def assms(3,4) deref_def map_of_list_erase split: option.splits)
qed

lemma stored_insert:
  assumes "linked s" and "index s k = None"
    and "lru_list s' = (new_node (lru_list s), e) # lru_list s"
    and "index s' = (index s)(k \<mapsto> new_node (lru_list s))"
  shows "stored_time k' s' = (if k' = k then Some (access_time e) else stored_time k' s)"
proof (cases "k' = k")
  case True
  then show ?thesis by (simp add: stored_time_def assms(3,4) deref_def)
next
  case False
  have "n \<noteq> new_node (lru_list s)" if "index s k' = Some n" for n
    using linked_deref [OF assms(1) that] map_of_new_node [of "lru_list s"]
    by (auto simp: deref_def)
  with False show ?thesis
    by (auto simp: stored_time_def assms(3,4) deref_def split: option.splits)
qed

lemma stored_evict_last:
  assumes "cache_inv s" and "length (lru_list s) = unat (capacity s)"
  shows "stored_time k' (evict_last s) =
           (if k' = last (keys_of s) then None else stored_time k' s)"
proof -
  from assms have ne: "lru_list s \<noteq> []"
    by (auto simp: cache_inv_def unat_eq_0)
  from assms(1) have l: "linked s" by (simp add: cache_inv_def)
  have last: "last (keys_of s) = key (snd (last (lru_list s)))"
    using ne by (simp add: keys_of_def last_map)
  have "stored_time k' (evict_last s) =
          (if k' = key (snd (last (lru_list s))) then None else stored_time k' s)"
  proof (rule stored_erase [OF l linked_last [OF l ne]])
    from l ne show "lru_list (evict_last s) = list_erase (fst (last (lru_list s))) (lru_list s)"
      by (simp add: evict_last_def linked_def list_erase_last)
    show "index (evict_last s) = (index s)(key (snd (last (lru_list s))) := None)"
      by (simp add: evict_last_def)
  qed
  with last show ?thesis by simp
qed

lemma stored_frame:
  "lru_list s' = lru_list s \<Longrightarrow> index s' = index s \<Longrightarrow> stored_time k s' = stored_time k s"
  by (auto simp: stored_time_def split: option.splits)

lemma stored_contains: "stored_time k s = Some t \<Longrightarrow> contains k s"
  by (auto simp: stored_time_def contains_def split: option.splits)

lemma contains_stored:
  "linked s \<Longrightarrow> contains k s \<Longrightarrow> \<exists>t. stored_time k s = Some t"
  by (auto simp: stored_time_def contains_def dest: linked_deref)

lemma put_stored_time:
  assumes "cache_inv s"
  shows "\<exists>s'. put t0 te t1 k v s = Some (True, s') \<and>
           (\<forall>k'. stored_time k' s' =
              (if k' = k then (if contains k s then stored_time k s else Some te)
               else if \<not> contains k s \<and> size_c s = capacity s \<and> k' = last (keys_of s) then None
               else stored_time k' s))"
proof (cases "index s k")
  case None
  from assms have l: "linked s" by (simp add: cache_inv_def)
  define s1 where "s1 = (if length (lru_list s) = unat (capacity s) then evict_last s else s)"
  let ?s = "s1\<lparr>lru_list := (new_node (lru_list s1), \<lparr>key = k, val = v, access_time = te\<rparr>) # lru_list s1,
              index := (index s1)(k \<mapsto> new_node (lru_list s1)),
              total_access_time_ns := total_access_time_ns s + word_of_int (t1 - t0)\<rparr>"
  have p: "put t0 te t1 k v s = Some (True, ?s)"
    using put_insert [OF assms None, of t0 te t1 v] by (simp add: s1_def Let_def)
  have l1: "linked s1"
    using assms cache_inv_evict_last [of s] by (simp add: s1_def cache_inv_def)
  have ix1: "index s1 k = None"
    using None by (simp add: s1_def evict_last_def)
  have st1: "stored_time k' s1 =
      (if size_c s = capacity s \<and> k' = last (keys_of s) then None else stored_time k' s)" for k'
  proof (cases "length (lru_list s) = unat (capacity s)")
    case True
    with stored_evict_last [OF assms True, of k'] full_iff [OF assms] show ?thesis
      by (simp add: s1_def)
  next
    case False
    with full_iff [OF assms] show ?thesis by (simp add: s1_def)
  qed
  have "stored_time k' ?s =
      (if k' = k then Some te else stored_time k' s1)" for k'
    using stored_insert [OF l1 ix1, of ?s "\<lparr>key = k, val = v, access_time = te\<rparr>" k']
    by simp
  with st1 None p show ?thesis by (simp add: contains_def)
next
  case (Some it)
  from assms have l: "linked s" by (simp add: cache_inv_def)
  from linked_deref [OF l Some] obtain e where e: "deref it (lru_list s) = Some e"
    by blast
  let ?s = "s\<lparr>lru_list := (it, e\<lparr>val := v\<rparr>) # list_erase it (lru_list s),
             total_access_time_ns := total_access_time_ns s + word_of_int (t1 - t0)\<rparr>"
  have "stored_time k' ?s = stored_time k' s" for k'
    by (rule stored_relink [OF e, of "e\<lparr>val := v\<rparr>"]) simp_all
  with put_update [OF l Some e, of t0 te t1 v] Some show ?thesis
    by (simp add: contains_def)
qed

lemma get_stored_time:
  assumes "cache_inv s"
  shows "\<exists>r s'. get t0 t1 k s = Some (r, s') \<and> (\<forall>k'. stored_time k' s' = stored_time k' s)"
proof (cases "index s k")
  case None
  have "stored_time k' (s\<lparr>miss_count := miss_count s + 1,
      total_access_time_ns := total_access_time_ns s + word_of_int (t1 - t0)\<rparr>) = stored_time k' s"
    for k'
    by (rule stored_frame) simp_all
  with None show ?thesis by (simp add: get_miss)
next
  case (Some it)
  from assms have l: "linked s" by (simp add: cache_inv_def)
  from linked_deref [OF l Some] obtain e where e: "deref it (lru_list s) = Some e"
    by blast
  let ?s = "s\<lparr>hit_count := hit_count s + 1,
             lru_list := (it, e) # list_erase it (lru_list s),
             total_access_time_ns := total_access_time_ns s + word_of_int (t1 - t0)\<rparr>"
  have "stored_time k' ?s = stored_time k' s" for k'
    by (rule stored_relink [OF e, of e]) simp_all
  with get_hit [OF l Some e, of t0 t1] show ?thesis by simp
qed

lemma remove_stored_time:
  assumes "cache_inv s"
  shows "\<exists>r s'. remove_c k s = Some (r, s') \<and>
           (\<forall>k'. stored_time k' s' = (if k' = k then None else stored_time k' s))"
proof (cases "index s k")
  case None
  then have "stored_time k' s = (if k' = k then None else stored_time k' s)" for k'
    by (simp add: stored_time_def)
  with None show ?thesis by (auto simp: remove_absent)
next
  case (Some it)
  from assms have l: "linked s" by (simp add: cache_inv_def)
  from linked_deref [OF l Some] obtain e where e: "deref it (lru_list s) = Some e"
    by blast
  let ?s = "s\<lparr>lru_list := list_erase it (lru_list s), index := (index s)(k := None)\<rparr>"
  have "stored_time k' ?s = (if k' = k then None else stored_time k' s)" for k'
    by (rule stored_erase [OF l Some]) simp_all
  with remove_present [OF Some e] show ?thesis by auto
qed

lemma step_stored_time:
  assumes "cache_inv s" and "step c s = Some s'" and "stored_time k' s = Some t"
  shows "stored_time k' s' = Some t \<or> stored_time k' s' = None"
proof (cases c)
  case (Get t0 t1 k)
  with get_stored_time [OF assms(1), of t0 t1 k] assms(2,3) show ?thesis by auto
next
  case (Put t0 te t1 k v)
  from put_stored_time [OF assms(1), of t0 te t1 k v] assms(2) Put
  have "stored_time k' s' =
      (if k' = k then (if contains k s then stored_time k s else Some te)
       else if \<not> contains k s \<and> size_c s = capacity s \<and> k' = last (keys_of s) then None
       else stored_time k' s)"
    by auto
  with stored_contains [OF assms(3)] assms(3) show ?thesis
    by (auto split: if_splits)
next
  case (Remove k)
  from remove_stored_time [OF assms(1), of k] assms(2) Remove
  have "stored_time k' s' = (if k' = k then None else stored_time k' s)"
    by auto
  with assms(3) show ?thesis by simp
next
  case (Contains k)
  with assms show ?thesis by simp
next
  case Clear
  with assms show ?thesis by (auto simp: clear_def stored_time_def)
next
  case ResetMetrics
  with assms(2) have "stored_time k' s' = stored_time k' s"
    by (intro stored_frame) (auto simp: reset_metrics_def)
  with assms(3) show ?thesis by simp
qed

section \<open>Stored values\<close>

lemma value_relink:
  assumes "linked s" and "index s k = Some it" and "deref it (lru_list s) = Some e"
    and "lru_list s' = (it, e') # list_erase it (lru_list s)" and "index s' = index s"
  shows "stored_value k' s' = (if k' = k then Some (val e') else stored_value k' s)"
proof (cases "k' = k")
  case True
  with assms(2) show ?thesis by (simp add: stored_value_def assms(4,5) deref_def)
next
  case False
  have "n \<noteq> it" if "index s k' = Some n" for n
  proof
    assume "n = it"
    with that linked_deref [OF assms(1) that] linked_deref [OF assms(1,2)] False
    show False by auto
  qed
  with False show ?thesis
    by (auto simp: stored_value_def assms(4,5) deref_def map_of_list_erase split: option.splits)
qed

lemma value_insert:
  assumes "linked s" and "index s k = None"
    and "lru_list s' = (new_node (lru_list s), e) # lru_list s"
    and "index s' = (index s)(k \<mapsto> new_node (lru_list s))"
  shows "stored_value k s' = Some (val e)"
  by (simp add: stored_value_def assms(3,4) deref_def)

lemma put_value:
  assumes "cache_inv s"
  shows "\<exists>s'. put t0 te t1 k v s = Some (True, s') \<and> stored_value k s' = Some v \<and>
           (contains k s \<longrightarrow> (\<forall>k'. k' \<noteq> k \<longrightarrow> stored_value k' s' = stored_value k' s))"
proof (cases "index s k")
  case None
  define s1 where "s1 = (if length (lru_list s) = unat (capacity s) then evict_last s else s)"
  let ?s = "s1\<lparr>lru_list := (new_node (lru_list s1), \<lparr>key = k, val = v, access_time = te\<rparr>) # lru_list s1,
              index := (index s1)(k \<mapsto> new_node (lru_list s1)),
              total_access_time_ns := total_access_time_ns s + word_of_int (t1 - t0)\<rparr>"
  have p: "put t0 te t1 k v s = Some (True, ?s)"
    using put_insert [OF assms None, of t0 te t1 v] by (simp add: s1_def Let_def)
  have "stored_value k ?s = Some v"
    by (simp add: stored_value_def deref_def)
  with p None show ?thesis by (simp add: contains_def)
next
  case (Some it)
  from assms have l: "linked s" by (simp add: cache_inv_def)
  from linked_deref [OF l Some] obtain e where e: "deref it (lru_list s) = Some e"
    by blast
  let ?s = "s\<lparr>lru_list := (it, e\<lparr>val := v\<rparr>) # list_erase it (lru_list s),
             total_access_time_ns := total_access_time_ns s + word_of_int (t1 - t0)\<rparr>"
  have "stored_value k' ?s = (if k' = k then Some (val (e\<lparr>val := v\<rparr>)) else stored_value k' s)"
    for k'
    by (rule value_relink [OF l Some e]) simp_all
  with put_update [OF l Some e, of t0 te t1 v] show ?thesis by simp
qed

lemma get_value:
  assumes "cache_inv s"
  shows "\<exists>r s'. get t0 t1 k s = Some (r, s') \<and> r = stored_value k s \<and>
           (\<forall>k'. stored_value k' s' = stored_value k' s)"
proof (cases "index s k")
  case None
  have "stored_value k' (s\<lparr>miss_count := miss_count s + 1,
      total_access_time_ns := total_access_time_ns s + word_of_int (t1 - t0)\<rparr>) = stored_value k' s"
    for k'
    by (auto simp: stored_value_def split: option.splits)
  with None show ?thesis by (simp add: get_miss stored_value_def)
next
  case (Some it)
  from assms have l: "linked s" by (simp add: cache_inv_def)
  from linked_deref [OF l Some] obtain e where e: "deref it (lru_list s) = Some e"
    by blast
  let ?s = "s\<lparr>hit_count := hit_count s + 1,
             lru_list := (it, e) # list_erase it (lru_list s),
             total_access_time_ns := total_access_time_ns s + word_of_int (t1 - t0)\<rparr>"
  have v: "stored_value k s = Some (val e)"
    using Some e by (simp add: stored_value_def)
  have "stored_value k' ?s = (if k' = k then Some (val e) else stored_value k' s)" for k'
    by (rule value_relink [OF l Some e]) simp_all
  with v have "stored_value k' ?s = stored_value k' s" for k'
    by simp
  with get_hit [OF l Some e, of t0 t1] v show ?thesis by simp
qed

section \<open>The claims\<close>

text \<open>
  C1. For every capacity \<open>C > 0\<close> and every finite sequence of calls on a cache constructed
  with capacity \<open>C\<close>, after each call (that is, after every prefix \<open>take n cs\<close> of the
  sequence) the calls have returned and \<open>0 \<le> size() \<le> capacity()\<close> holds; \<open>size()\<close> is the
  exact length of the list.
\<close>

theorem capacity_invariant:
  assumes "C \<noteq> 0"
  shows "\<exists>s. cache_after C (take n cs) = Some s \<and> capacity s = C \<and>
             0 \<le> size_c s \<and> size_c s \<le> capacity s \<and>
             unat (size_c s) = length (lru_list s)"
proof -
  from cache_after_inv [OF assms, of "take n cs"] obtain s :: "('a, 'b) lru_cache"
    where s: "cache_after C (take n cs) = Some s" "cache_inv s" "capacity s = C"
    by blast
  with cache_inv_size [OF s(2)] show ?thesis by simp
qed

theorem capacity_invariant_witness:
  "(3 :: size_t) \<noteq> 0 \<and>
   cache_after 3 (take 4 demo_calls) = Some demo_state \<and> capacity demo_state = 3 \<and>
   0 \<le> size_c demo_state \<and> size_c demo_state \<le> capacity demo_state \<and>
   unat (size_c demo_state) = length (lru_list demo_state)"
proof -
  have h: "(3 :: size_t) \<noteq> 0" by simp
  have r: "cache_after 3 (take 4 demo_calls) = Some demo_state"
    using demo_reached by (simp add: demo_calls_def)
  from capacity_invariant [OF h, of 4 demo_calls] obtain s :: "(int, string) lru_cache"
    where s: "cache_after 3 (take 4 demo_calls) = Some s" "capacity s = 3"
      "0 \<le> size_c s" "size_c s \<le> capacity s" "unat (size_c s) = length (lru_list s)"
    by blast
  from s(1) r have "s = demo_state" by simp
  with s r h show ?thesis by simp
qed

text \<open>
  C8. After \<open>clear()\<close>, \<open>size() = 0\<close>, \<open>empty()\<close> holds and \<open>contains(k)\<close> is false for
  every key; the hit counter, the miss counter and the latency accumulator (and the
  capacity) are as before.
\<close>

theorem clear_total:
  "size_c (clear s) = 0 \<and> empty_c (clear s) \<and> (\<forall>k. \<not> contains k (clear s)) \<and>
   hit_count (clear s) = hit_count s \<and> miss_count (clear s) = miss_count s \<and>
   total_access_time_ns (clear s) = total_access_time_ns s \<and>
   capacity (clear s) = capacity s"
  by (simp add: clear_def size_c_def empty_c_def contains_def)

text \<open>
  C4. After any sequence of calls on a constructed cache, \<open>hits + misses\<close> is the number of
  \<open>get\<close> calls since the last \<open>reset_metrics\<close> (or since construction): as \<open>size_t\<close> values,
  and as natural numbers while that number is below \<open>2^64\<close>. Each \<open>get\<close> adds one to
  exactly one of the two counters; \<open>put\<close>, \<open>remove\<close>, \<open>contains\<close> and \<open>clear\<close> change
  neither.
\<close>

theorem metrics_conservation:
  assumes "cache_after C cs = Some s"
  shows "hit_count s + miss_count s = of_nat (gets_since_reset 0 cs) \<and>
         (gets_since_reset 0 cs < 2 ^ 64 \<longrightarrow>
            unat (hit_count s) + unat (miss_count s) = gets_since_reset 0 cs) \<and>
         (\<forall>t0 t1 k r s'. get t0 t1 k s = Some (r, s') \<longrightarrow>
            (hit_count s' = hit_count s + 1 \<and> miss_count s' = miss_count s) \<or>
            (hit_count s' = hit_count s \<and> miss_count s' = miss_count s + 1)) \<and>
         (\<forall>t0 te t1 k v r s'. put t0 te t1 k v s = Some (r, s') \<longrightarrow>
            hit_count s' = hit_count s \<and> miss_count s' = miss_count s) \<and>
         (\<forall>k r s'. remove_c k s = Some (r, s') \<longrightarrow>
            hit_count s' = hit_count s \<and> miss_count s' = miss_count s) \<and>
         (\<forall>k s'. step (Contains k) s = Some s' \<longrightarrow>
            hit_count s' = hit_count s \<and> miss_count s' = miss_count s) \<and>
         hit_count (clear s) = hit_count s \<and> miss_count (clear s) = miss_count s"
proof -
  from cache_after_Some [OF assms] obtain s0
    where s0: "run cs s0 = Some s" "hit_count s0 = 0" "miss_count s0 = 0"
    by blast
  have "hit_count s + miss_count s = of_nat (gets_since_reset 0 cs)"
    by (rule run_counts_word [OF s0(1)]) (simp add: s0)
  moreover have "gets_since_reset 0 cs < 2 ^ 64 \<longrightarrow>
      unat (hit_count s) + unat (miss_count s) = gets_since_reset 0 cs"
    using run_counts_nat [OF s0(1), of 0] by (simp add: s0)
  moreover have "(hit_count s' = hit_count s + 1 \<and> miss_count s' = miss_count s) \<or>
      (hit_count s' = hit_count s \<and> miss_count s' = miss_count s + 1)"
    if "get t0 t1 k s = Some (r, s')" for t0 t1 k r s'
    using get_counters [OF that] by auto
  moreover have "hit_count s' = hit_count s \<and> miss_count s' = miss_count s"
    if "put t0 te t1 k v s = Some (r, s')" for t0 te t1 k v r s'
    using put_counters [OF that] .
  moreover have "hit_count s' = hit_count s \<and> miss_count s' = miss_count s"
    if "remove_c k s = Some (r, s')" for k r s'
    using remove_counters [OF that] by simp
  ultimately show ?thesis by (simp add: clear_def)
qed

theorem metrics_conservation_witness:
  "cache_after 3 demo_calls = Some demo_state \<and>
   gets_since_reset 0 demo_calls = 1 \<and> gets_since_reset 0 demo_calls < 2 ^ 64 \<and>
   hit_count demo_state + miss_count demo_state = of_nat (gets_since_reset 0 demo_calls) \<and>
   unat (hit_count demo_state) + unat (miss_count demo_state) = 1 \<and>
   (\<exists>s'. get 11 12 4 demo_state = Some (None, s') \<and>
      hit_count s' = hit_count demo_state \<and> miss_count s' = miss_count demo_state + 1) \<and>
   (\<exists>w s'. get 11 12 2 demo_state = Some (Some w, s') \<and>
      hit_count s' = hit_count demo_state + 1 \<and> miss_count s' = miss_count demo_state) \<and>
   (\<exists>s'. put 11 12 13 4 ''four'' demo_state = Some (True, s') \<and>
      hit_count s' = hit_count demo_state \<and> miss_count s' = miss_count demo_state) \<and>
   (\<exists>s'. remove_c 2 demo_state = Some (True, s') \<and>
      hit_count s' = hit_count demo_state \<and> miss_count s' = miss_count demo_state) \<and>
   (\<exists>s'. step (Contains 2) demo_state = Some s' \<and>
      hit_count s' = hit_count demo_state \<and> miss_count s' = miss_count demo_state)"
proof -
  note inst = metrics_conservation [OF demo_reached]
  have n: "gets_since_reset 0 demo_calls = 1"
    by (simp add: demo_calls_def)
  obtain s1 where s1: "get 11 12 4 demo_state = Some (None, s1)"
    by (simp add: demo_state_def eval_defs)
  obtain w s2 where s2: "get 11 12 2 demo_state = Some (Some w, s2)"
    by (simp add: demo_state_def eval_defs)
  obtain s3 where s3: "put 11 12 13 4 ''four'' demo_state = Some (True, s3)"
    by (simp add: demo_state_def eval_defs)
  obtain s4 where s4: "remove_c 2 demo_state = Some (True, s4)"
    by (simp add: demo_state_def eval_defs)
  have c1: "hit_count s1 = hit_count demo_state \<and> miss_count s1 = miss_count demo_state + 1"
    using inst s1 get_miss [of demo_state 4 11 12] by (auto simp: demo_state_def)
  have c2: "hit_count s2 = hit_count demo_state + 1 \<and> miss_count s2 = miss_count demo_state"
  proof -
    from inst s2
    have "(hit_count s2 = hit_count demo_state + 1 \<and> miss_count s2 = miss_count demo_state) \<or>
          (hit_count s2 = hit_count demo_state \<and> miss_count s2 = miss_count demo_state + 1)"
      by blast
    moreover from s2 have "miss_count s2 = 0"
      by (auto simp: demo_state_def eval_defs)
    ultimately show ?thesis by (auto simp: demo_state_def)
  qed
  from inst s3 have c3: "hit_count s3 = hit_count demo_state \<and> miss_count s3 = miss_count demo_state"
    by blast
  from inst s4 have c4: "hit_count s4 = hit_count demo_state \<and> miss_count s4 = miss_count demo_state"
    by blast
  from inst n have "hit_count demo_state + miss_count demo_state = of_nat (gets_since_reset 0 demo_calls)"
    and "unat (hit_count demo_state) + unat (miss_count demo_state) = 1"
    by simp_all
  with n demo_reached s1 s2 s3 s4 c1 c2 c3 c4 show ?thesis by simp
qed

text \<open>
  C5. The only error is \<open>CacheException\<close>; constructing with capacity 0 throws it and no
  call sequence runs on the result. Constructing with a capacity other than 0 succeeds,
  and then every sequence of calls returns, as do \<open>get\<close>, \<open>put\<close> (with \<open>true\<close>) and
  \<open>remove\<close> on the state reached.
\<close>

theorem construction_is_the_only_failure:
  "(\<forall>e :: error. \<exists>m. e = CacheException m) \<and>
   (\<exists>m. (ThreadSafeLRUCache 0 :: error + ('k, 'v) lru_cache) = Inl (CacheException m)) \<and>
   (cache_after 0 cs :: ('k, 'v) lru_cache option) = None \<and>
   (C \<noteq> 0 \<longrightarrow>
      (\<exists>s0 :: ('k, 'v) lru_cache. ThreadSafeLRUCache C = Inr s0 \<and> capacity s0 = C) \<and>
      (\<exists>s :: ('k, 'v) lru_cache. cache_after C cs = Some s \<and>
         (\<exists>r s'. get t0 t1 k s = Some (r, s')) \<and>
         (\<exists>s'. put t0 te t1 k v s = Some (True, s')) \<and>
         (\<exists>r s'. remove_c k s = Some (r, s'))))"
proof -
  have "\<exists>m. e = CacheException m" for e :: error
    by (cases e) simp
  moreover have "\<exists>m. (ThreadSafeLRUCache 0 :: error + ('k, 'v) lru_cache) = Inl (CacheException m)"
    by (simp add: ThreadSafeLRUCache_def)
  moreover have "(cache_after 0 cs :: ('k, 'v) lru_cache option) = None"
    by (simp add: cache_after_def ThreadSafeLRUCache_def)
  moreover have "\<exists>s0 :: ('k, 'v) lru_cache. ThreadSafeLRUCache C = Inr s0 \<and> capacity s0 = C"
    if "C \<noteq> 0"
    using that by (simp add: ThreadSafeLRUCache_def)
  moreover have "\<exists>s :: ('k, 'v) lru_cache. cache_after C cs = Some s \<and>
         (\<exists>r s'. get t0 t1 k s = Some (r, s')) \<and>
         (\<exists>s'. put t0 te t1 k v s = Some (True, s')) \<and>
         (\<exists>r s'. remove_c k s = Some (r, s'))"
    if "C \<noteq> 0"
  proof -
    from cache_after_inv [OF that, of cs] obtain s :: "('k, 'v) lru_cache"
      where s: "cache_after C cs = Some s" "cache_inv s"
      by blast
    from get_inv [OF s(2), of t0 t1 k] put_inv [OF s(2), of t0 te t1 k v]
      remove_inv [OF s(2), of k] s(1)
    show ?thesis by blast
  qed
  ultimately show ?thesis by blast
qed

theorem construction_is_the_only_failure_witness:
  "(3 :: size_t) \<noteq> 0 \<and>
   (\<exists>s0 :: (int, string) lru_cache. ThreadSafeLRUCache 3 = Inr s0 \<and> capacity s0 = 3) \<and>
   (\<exists>s'. put 11 12 13 4 ''four'' demo_state = Some (True, s')) \<and>
   (\<exists>r s'. get 11 13 4 demo_state = Some (r, s')) \<and>
   (\<exists>r s'. remove_c 4 demo_state = Some (r, s'))"
proof -
  have h: "(3 :: size_t) \<noteq> 0" by simp
  from construction_is_the_only_failure
    [where C = 3 and cs = demo_calls and ?'k = int and ?'v = string
       and ?t0.0 = 11 and te = 12 and ?t1.0 = 13 and k = 4 and v = "''four''"]
  show ?thesis using h demo_reached by auto
qed

text \<open>
  C6. For a key absent from the cache (any state): \<open>remove\<close> returns false and leaves the
  whole state as it is; \<open>get\<close> returns none, adds exactly one to the miss counter and
  changes neither the list nor the index. For a key present in a cache reached from
  construction: \<open>remove\<close> returns true, the key is gone from the list and from the index,
  every other key stays, in order, and the counters are as before.
\<close>

theorem absent_and_present_keys:
  "(\<not> contains k s \<longrightarrow>
      remove_c k s = Some (False, s) \<and>
      get t0 t1 k s =
        Some (None, s\<lparr>miss_count := miss_count s + 1,
                       total_access_time_ns :=
                         total_access_time_ns s + word_of_int (t1 - t0)\<rparr>)) \<and>
   (cache_after C cs = Some s \<and> contains k s \<longrightarrow>
      (\<exists>s'. remove_c k s = Some (True, s') \<and>
         \<not> contains k s' \<and> k \<notin> set (keys_of s') \<and>
         keys_of s' = remove1 k (keys_of s) \<and>
         Suc (length (lru_list s')) = length (lru_list s) \<and>
         (\<forall>k'. k' \<noteq> k \<longrightarrow> contains k' s' = contains k' s) \<and>
         hit_count s' = hit_count s \<and> miss_count s' = miss_count s \<and>
         total_access_time_ns s' = total_access_time_ns s))"
proof (intro conjI impI)
  assume "\<not> contains k s"
  then have a: "index s k = None" by (simp add: contains_def)
  then show "remove_c k s = Some (False, s)" by (rule remove_absent)
  from a show "get t0 t1 k s =
        Some (None, s\<lparr>miss_count := miss_count s + 1,
                       total_access_time_ns :=
                         total_access_time_ns s + word_of_int (t1 - t0)\<rparr>)"
    by (rule get_miss)
next
  assume "cache_after C cs = Some s \<and> contains k s"
  then have inv: "cache_inv s" and "contains k s"
    using cache_after_reached(1) by blast+
  then obtain it where it: "index s k = Some it" by (auto simp: contains_def)
  from inv have l: "linked s" by (simp add: cache_inv_def)
  from linked_deref [OF l it] obtain e where e: "deref it (lru_list s) = Some e" "key e = k"
    by blast
  let ?s = "s\<lparr>lru_list := list_erase it (lru_list s), index := (index s)(k := None)\<rparr>"
  have r: "remove_c k s = Some (True, ?s)"
    by (rule remove_present [OF it e(1)])
  have keys: "keys_of ?s = remove1 k (keys_of s)"
    using keys_list_erase [OF l it] linked_distinct_keys [OF l]
    by (simp add: keys_of_def filter_neq_remove1)
  have "k \<notin> set (keys_of ?s)"
    using linked_distinct_keys [OF l] by (simp add: keys)
  moreover have "Suc (length (lru_list ?s)) = length (lru_list s)"
    using l e(1) length_list_erase [of "lru_list s" it e] by (simp add: linked_def deref_def)
  ultimately show "\<exists>s'. remove_c k s = Some (True, s') \<and>
         \<not> contains k s' \<and> k \<notin> set (keys_of s') \<and>
         keys_of s' = remove1 k (keys_of s) \<and>
         Suc (length (lru_list s')) = length (lru_list s) \<and>
         (\<forall>k'. k' \<noteq> k \<longrightarrow> contains k' s' = contains k' s) \<and>
         hit_count s' = hit_count s \<and> miss_count s' = miss_count s \<and>
         total_access_time_ns s' = total_access_time_ns s"
    using r keys by (simp add: contains_def)
qed

theorem absent_and_present_keys_witness:
  "\<not> contains 4 demo_state \<and> cache_after 3 demo_calls = Some demo_state \<and>
   contains 2 demo_state \<and>
   remove_c 4 demo_state = Some (False, demo_state) \<and>
   map_option fst (get 11 12 4 demo_state) = Some None \<and>
   (\<exists>s'. remove_c 2 demo_state = Some (True, s') \<and> keys_of s' = [1, 3] \<and>
      \<not> contains 2 s')"
proof -
  have a: "\<not> contains 4 demo_state" and p: "contains 2 demo_state"
    and ks: "keys_of demo_state = [1, 3, 2]"
    by (simp_all add: contains_def demo_state_def keys_of_def)
  from absent_and_present_keys [of 4 demo_state 11 12 3 demo_calls] a
  have "remove_c 4 demo_state = Some (False, demo_state)"
    and "map_option fst (get 11 12 4 demo_state) = Some None"
    by simp_all
  moreover from absent_and_present_keys [of 2 demo_state 0 0 3 demo_calls] p demo_reached ks
  have "\<exists>s'. remove_c 2 demo_state = Some (True, s') \<and> keys_of s' = [1, 3] \<and> \<not> contains 2 s'"
    by auto
  ultimately show ?thesis using a p demo_reached by simp
qed

text \<open>
  C7. On a cache reached from construction \<open>put\<close> returns true. When the key is present, the
  value is assigned in the key's node, the node moves to the head, the set of keys, the
  index and \<open>size()\<close> are unchanged (nothing is evicted), and a following \<open>get\<close> returns the
  new value. For any capacity other than 0, \<open>put(1, "one")\<close> then \<open>put(1, "updated")\<close> leaves
  \<open>size() = 1\<close> and \<open>get(1)\<close> returns \<open>"updated"\<close>.
\<close>

theorem put_overwrites_in_place:
  "(cache_after C cs = Some s \<longrightarrow>
      (\<exists>s'. put t0 te t1 k v s = Some (True, s') \<and>
         (contains k s \<longrightarrow>
            (\<exists>it e. index s k = Some it \<and> deref it (lru_list s) = Some e \<and>
               lru_list s' = (it, e\<lparr>val := v\<rparr>) # list_erase it (lru_list s)) \<and>
            keys_of s' = k # remove1 k (keys_of s) \<and>
            set (keys_of s') = set (keys_of s) \<and>
            index s' = index s \<and>
            size_c s' = size_c s \<and>
            (\<exists>s''. get t2 t3 k s' = Some (Some v, s''))))) \<and>
   (D \<noteq> 0 \<longrightarrow>
      (\<exists>u u'. cache_after D [Put a0 a1 a2 (1 :: int) ''one'', Put b0 b1 b2 1 ''updated''] = Some u \<and>
         size_c u = 1 \<and> get c0 c1 1 u = Some (Some ''updated'', u')))"
proof (intro conjI impI)
  assume reach: "cache_after C cs = Some s"
  then have inv: "cache_inv s" by (rule cache_after_reached(1))
  then have l: "linked s" by (simp add: cache_inv_def)
  from put_inv [OF inv, of t0 te t1 k v] obtain s'
    where s': "put t0 te t1 k v s = Some (True, s')" "cache_inv s'"
    by blast
  have "(\<exists>it e. index s k = Some it \<and> deref it (lru_list s) = Some e \<and>
               lru_list s' = (it, e\<lparr>val := v\<rparr>) # list_erase it (lru_list s)) \<and>
            keys_of s' = k # remove1 k (keys_of s) \<and>
            set (keys_of s') = set (keys_of s) \<and>
            index s' = index s \<and>
            size_c s' = size_c s \<and>
            (\<exists>s''. get t2 t3 k s' = Some (Some v, s''))"
    if c: "contains k s"
  proof -
    from put_present [OF inv c, of t0 te t1 v] s'(1) obtain it e
      where it: "index s k = Some it" and e: "deref it (lru_list s) = Some e" "key e = k"
        and xs: "lru_list s' = (it, e\<lparr>val := v\<rparr>) # list_erase it (lru_list s)"
        and ix: "index s' = index s"
      by auto
    have keys: "keys_of s' = k # remove1 k (keys_of s)"
      by (rule keys_relink [OF l it _ xs]) (simp add: e)
    have "k \<in> set (keys_of s)"
      using c contains_keys [OF l] by simp
    with keys have sets: "set (keys_of s') = set (keys_of s)"
      using linked_distinct_keys [OF l] by auto
    have size: "size_c s' = size_c s"
      using length_relink [OF l e(1), of "e\<lparr>val := v\<rparr>"] by (simp add: size_c_def xs)
    have c': "contains k s'"
      using c by (simp add: contains_def ix)
    from get_present [OF s'(2) c', of t2 t3] obtain it' e' where
      "index s' k = Some it'" "deref it' (lru_list s') = Some e'"
      "\<exists>s''. get t2 t3 k s' = Some (Some (val e'), s'')"
      by blast
    with it ix xs have "\<exists>s''. get t2 t3 k s' = Some (Some v, s'')"
      by (auto simp: deref_def)
    with it e xs keys sets ix size show ?thesis by blast
  qed
  with s'(1) show "\<exists>s'. put t0 te t1 k v s = Some (True, s') \<and>
         (contains k s \<longrightarrow>
            (\<exists>it e. index s k = Some it \<and> deref it (lru_list s) = Some e \<and>
               lru_list s' = (it, e\<lparr>val := v\<rparr>) # list_erase it (lru_list s)) \<and>
            keys_of s' = k # remove1 k (keys_of s) \<and>
            set (keys_of s') = set (keys_of s) \<and>
            index s' = index s \<and>
            size_c s' = size_c s \<and>
            (\<exists>s''. get t2 t3 k s' = Some (Some v, s'')))"
    by blast
next
  assume "D \<noteq> 0"
  then show "\<exists>u u'. cache_after D [Put a0 a1 a2 (1 :: int) ''one'', Put b0 b1 b2 1 ''updated''] = Some u \<and>
         size_c u = 1 \<and> get c0 c1 1 u = Some (Some ''updated'', u')"
    by (simp add: eval_defs unat_gt_0)
qed

theorem put_overwrites_in_place_witness:
  "cache_after 3 demo_calls = Some demo_state \<and> contains 3 demo_state \<and>
   (\<exists>s'. put 11 12 13 3 ''THREE'' demo_state = Some (True, s') \<and>
      keys_of s' = [3, 1, 2] \<and> size_c s' = size_c demo_state \<and>
      (\<exists>s''. get 14 15 3 s' = Some (Some ''THREE'', s''))) \<and>
   (3 :: size_t) \<noteq> 0 \<and>
   (\<exists>u u'. cache_after 3 [Put 0 1 2 (1 :: int) ''one'', Put 3 4 5 1 ''updated''] = Some u \<and>
      size_c u = 1 \<and> get 6 7 1 u = Some (Some ''updated'', u'))"
proof -
  have c: "contains 3 demo_state" and ks: "keys_of demo_state = [1, 3, 2]"
    by (simp_all add: contains_def demo_state_def keys_of_def)
  have h: "(3 :: size_t) \<noteq> 0" by simp
  note inst = put_overwrites_in_place
    [of 3 demo_calls demo_state 11 12 13 3 "''THREE''" 14 15 3 0 1 2 3 4 5 6 7]
  from inst demo_reached c ks
  have "\<exists>s'. put 11 12 13 3 ''THREE'' demo_state = Some (True, s') \<and>
      keys_of s' = [3, 1, 2] \<and> size_c s' = size_c demo_state \<and>
      (\<exists>s''. get 14 15 3 s' = Some (Some ''THREE'', s''))"
    by auto
  moreover from inst h
  have "\<exists>u u'. cache_after 3 [Put 0 1 2 (1 :: int) ''one'', Put 3 4 5 1 ''updated''] = Some u \<and>
      size_c u = 1 \<and> get 6 7 1 u = Some (Some ''updated'', u')"
    by blast
  ultimately show ?thesis using demo_reached c h by blast
qed

text \<open>
  C2. On a cache reached from construction: \<open>put\<close> of an absent key into a full cache
  evicts exactly the key at the tail of the list (the least recently used) and inserts the
  new key at the head; into a cache that is not full it evicts nothing; a hit of \<open>get\<close>
  moves the key to the head and keeps the others in order. On capacity 3,
  \<open>put(1), put(2), put(3), get(1), put(4)\<close> evicts key 2 and keeps 1, 3 and 4.
\<close>

theorem lru_eviction_order:
  "(cache_after C cs = Some s \<longrightarrow>
      (\<not> contains k s \<and> size_c s = capacity s \<longrightarrow>
         (\<exists>s'. put t0 te t1 k v s = Some (True, s') \<and>
            keys_of s' = k # butlast (keys_of s) \<and>
            (\<forall>k'. contains k' s' \<longleftrightarrow> k' = k \<or> (contains k' s \<and> k' \<noteq> last (keys_of s))) \<and>
            contains (last (keys_of s)) s \<and> \<not> contains (last (keys_of s)) s' \<and>
            size_c s' = capacity s')) \<and>
      (\<not> contains k s \<and> size_c s \<noteq> capacity s \<longrightarrow>
         (\<exists>s'. put t0 te t1 k v s = Some (True, s') \<and> keys_of s' = k # keys_of s \<and>
            (\<forall>k'. contains k' s' \<longleftrightarrow> k' = k \<or> contains k' s))) \<and>
      (contains k s \<longrightarrow>
         (\<exists>w s'. get t0 t1 k s = Some (Some w, s') \<and>
            keys_of s' = k # remove1 k (keys_of s) \<and> index s' = index s))) \<and>
   (\<exists>u. cache_after 3 (demo_calls @ [Put 11 12 13 4 ''four'']) = Some u \<and>
      keys_of u = [4, 1, 3] \<and>
      \<not> contains 2 u \<and> contains 1 u \<and> contains 3 u \<and> contains 4 u)"
proof (intro conjI impI)
  assume reach: "cache_after C cs = Some s" and "\<not> contains k s \<and> size_c s = capacity s"
  then have inv: "cache_inv s" and a: "index s k = None" and "size_c s = capacity s"
    by (simp_all add: cache_after_reached(1) contains_def)
  then have full: "length (lru_list s) = unat (capacity s)"
    by (simp add: full_iff)
  from inv have l: "linked s" by (simp add: cache_inv_def)
  from inv full have ne: "keys_of s \<noteq> []"
    by (auto simp: cache_inv_def unat_eq_0 keys_of_def)
  from put_absent_full [OF inv a full, of t0 te t1 v] obtain s'
    where s': "put t0 te t1 k v s = Some (True, s')" "keys_of s' = k # butlast (keys_of s)"
      "index s' = (index s)(last (keys_of s) := None, k \<mapsto> new_node (butlast (lru_list s)))"
      "length (lru_list s') = length (lru_list s)"
    by blast
  from put_inv [OF inv, of t0 te t1 k v] s'(1) have inv': "cache_inv s'" by simp
  have cl: "contains (last (keys_of s)) s"
    using ne contains_keys [OF l] by simp
  with a have neq: "last (keys_of s) \<noteq> k" by (auto simp: contains_def)
  from put_inv [OF inv, of t0 te t1 k v] s'(1) have "capacity s' = capacity s" by simp
  with s'(4) full have "length (lru_list s') = unat (capacity s')" by simp
  with inv' have "size_c s' = capacity s'" by (simp add: full_iff)
  with s' cl neq show "\<exists>s'. put t0 te t1 k v s = Some (True, s') \<and>
            keys_of s' = k # butlast (keys_of s) \<and>
            (\<forall>k'. contains k' s' \<longleftrightarrow> k' = k \<or> (contains k' s \<and> k' \<noteq> last (keys_of s))) \<and>
            contains (last (keys_of s)) s \<and> \<not> contains (last (keys_of s)) s' \<and>
            size_c s' = capacity s'"
    by (auto simp: contains_def)
next
  assume reach: "cache_after C cs = Some s" and "\<not> contains k s \<and> size_c s \<noteq> capacity s"
  then have inv: "cache_inv s" and a: "index s k = None" and "size_c s \<noteq> capacity s"
    by (simp_all add: cache_after_reached(1) contains_def)
  then have "length (lru_list s) \<noteq> unat (capacity s)"
    by (simp add: full_iff)
  from put_absent_not_full [OF inv a this, of t0 te t1 v]
  show "\<exists>s'. put t0 te t1 k v s = Some (True, s') \<and> keys_of s' = k # keys_of s \<and>
            (\<forall>k'. contains k' s' \<longleftrightarrow> k' = k \<or> contains k' s)"
    by (auto simp: contains_def)
next
  assume reach: "cache_after C cs = Some s" and c: "contains k s"
  then have inv: "cache_inv s" by (simp add: cache_after_reached(1))
  then have l: "linked s" by (simp add: cache_inv_def)
  from get_present [OF inv c, of t0 t1] obtain it e s'
    where it: "index s k = Some it" and e: "key e = k"
      and g: "get t0 t1 k s = Some (Some (val e), s')"
      and xs: "lru_list s' = (it, e) # list_erase it (lru_list s)" and ix: "index s' = index s"
    by auto
  from keys_relink [OF l it e xs] g ix
  show "\<exists>w s'. get t0 t1 k s = Some (Some w, s') \<and>
            keys_of s' = k # remove1 k (keys_of s) \<and> index s' = index s"
    by blast
next
  show "\<exists>u. cache_after 3 (demo_calls @ [Put 11 12 13 4 ''four'']) = Some u \<and>
      keys_of u = [4, 1, 3] \<and>
      \<not> contains 2 u \<and> contains 1 u \<and> contains 3 u \<and> contains 4 u"
    by (simp add: demo_calls_def eval_defs keys_of_def contains_def)
qed

theorem lru_eviction_order_witness:
  "cache_after 3 demo_calls = Some demo_state \<and>
   \<not> contains 4 demo_state \<and> size_c demo_state = capacity demo_state \<and>
   last (keys_of demo_state) = 2 \<and> contains 1 demo_state \<and>
   (\<exists>s'. put 11 12 13 4 ''four'' demo_state = Some (True, s') \<and> keys_of s' = [4, 1, 3] \<and>
      \<not> contains 2 s') \<and>
   (\<exists>w s'. get 11 13 3 demo_state = Some (Some w, s') \<and> keys_of s' = [3, 1, 2]) \<and>
   (\<exists>s s'. cache_after 3 (take 2 demo_calls) = Some s \<and> keys_of s = [2, 1] \<and>
      \<not> contains 3 s \<and> size_c s \<noteq> capacity s \<and>
      put 6 7 8 3 ''three'' s = Some (True, s') \<and> keys_of s' = [3, 2, 1])"
proof -
  have a: "\<not> contains 4 demo_state" and f: "size_c demo_state = capacity demo_state"
    and c: "contains 3 demo_state" "contains 1 demo_state"
    and ks: "keys_of demo_state = [1, 3, 2]"
    by (simp_all add: contains_def demo_state_def keys_of_def size_c_def)
  from lru_eviction_order [of 3 demo_calls demo_state 4 11 12 13 "''four''"] demo_reached a f ks
  have "\<exists>s'. put 11 12 13 4 ''four'' demo_state = Some (True, s') \<and> keys_of s' = [4, 1, 3] \<and>
      \<not> contains 2 s'"
    by auto
  moreover
  from lru_eviction_order [of 3 demo_calls demo_state 3 11 12 13 "''x''"] demo_reached c ks
  have "\<exists>w s'. get 11 13 3 demo_state = Some (Some w, s') \<and> keys_of s' = [3, 1, 2]"
    by auto
  moreover
  obtain s where s: "cache_after 3 (take 2 demo_calls) = Some s" "keys_of s = [2, 1]"
    "\<not> contains 3 s" "size_c s \<noteq> capacity s"
    by (simp add: demo_calls_def eval_defs keys_of_def contains_def)
  from lru_eviction_order [of 3 "take 2 demo_calls" s 3 6 7 8 "''three''"] s
  have "\<exists>s'. put 6 7 8 3 ''three'' s = Some (True, s') \<and> keys_of s' = [3, 2, 1]"
    by auto
  with s have "\<exists>s s'. cache_after 3 (take 2 demo_calls) = Some s \<and> keys_of s = [2, 1] \<and>
      \<not> contains 3 s \<and> size_c s \<noteq> capacity s \<and>
      put 6 7 8 3 ''three'' s = Some (True, s') \<and> keys_of s' = [3, 2, 1]"
    by blast
  ultimately show ?thesis using demo_reached a f c ks by simp
qed

text \<open>
  C3. After every call of any sequence on a constructed cache, the keys of the index are
  the keys of the entries of the list, the list has no duplicate key (and no duplicate
  node), and the iterator of each key addresses the node at that key's position. Every
  call that returns, and the eviction loop, lead from a state with this property to a
  state with this property.
\<close>

theorem index_matches_sequence:
  "(C \<noteq> 0 \<longrightarrow> (\<exists>s. cache_after C (take n cs) = Some s \<and> index_consistent s)) \<and>
   (index_consistent s \<and> step c s = Some s' \<longrightarrow> index_consistent s') \<and>
   (index_consistent s \<and> evict_if_needed_unsafe s = Some s' \<longrightarrow> index_consistent s')"
proof (intro conjI impI)
  assume "C \<noteq> 0"
  from cache_after_inv [OF this, of "take n cs"]
  show "\<exists>s. cache_after C (take n cs) = Some s \<and> index_consistent s"
    by (auto simp: cache_inv_def intro: linked_consistent)
next
  assume "index_consistent s \<and> step c s = Some s'"
  then have "linked s" and "step c s = Some s'"
    by (simp_all add: consistent_linked)
  then have "linked s'" by (rule step_linked)
  then show "index_consistent s'" by (rule linked_consistent)
next
  assume "index_consistent s \<and> evict_if_needed_unsafe s = Some s'"
  then have "linked s" and "evict_if_needed_unsafe s = Some s'"
    by (simp_all add: consistent_linked)
  from evict_linked [OF this] have "linked s'" by simp
  then show "index_consistent s'" by (rule linked_consistent)
qed

theorem index_matches_sequence_witness:
  "(3 :: size_t) \<noteq> 0 \<and> cache_after 3 (take 4 demo_calls) = Some demo_state \<and>
   index_consistent demo_state \<and>
   (\<exists>s'. step (Put 11 12 13 4 ''four'') demo_state = Some s' \<and> index_consistent s') \<and>
   (\<exists>s'. evict_if_needed_unsafe demo_state = Some s' \<and> keys_of s' = [1, 3] \<and>
      index_consistent s')"
proof -
  have h: "(3 :: size_t) \<noteq> 0" by simp
  have r: "cache_after 3 (take 4 demo_calls) = Some demo_state"
    using demo_reached by (simp add: demo_calls_def)
  from index_matches_sequence [of 3 4 demo_calls] h r
  have c: "index_consistent demo_state" by auto
  obtain s1 where s1: "step (Put 11 12 13 4 ''four'') demo_state = Some s1"
    by (simp add: demo_state_def eval_defs)
  obtain s2 where s2: "evict_if_needed_unsafe demo_state = Some s2" "keys_of s2 = [1, 3]"
    by (simp add: demo_state_def eval_defs keys_of_def)
  from index_matches_sequence [of _ _ _ demo_state "Put 11 12 13 4 ''four''" s1] c s1
  have "index_consistent s1" by blast
  moreover from index_matches_sequence [of _ _ _ demo_state _ s2] c s2
  have "index_consistent s2" by blast
  ultimately show ?thesis using h r c s1 s2 by blast
qed

text \<open>
  C10. On a cache reached from construction. \<open>put\<close> of an absent key creates the entry
  at the head with the given value and stores the clock reading taken when the entry is
  constructed. \<open>put\<close> of a present key assigns the new value in the key's node and moves
  the node to the head; a hit of \<open>get\<close> returns the stored value and moves the node to the
  head; both leave the stored time of every key, the index and every other value as they
  are (and \<open>get\<close> leaves all values). After any call a key that had an entry has the same
  stored time or no entry. In the scenario the entry of key 1 keeps time 1 although it was
  read at time 9, \<open>put(4)\<close> evicts key 2 (time 4), not the entry with the oldest time, and
  \<open>put(2, "TWO")\<close> and \<open>get(2)\<close> move key 2 to the head with time 4 kept.
\<close>

theorem access_time_assigned_once:
  "(cache_after C cs = Some s \<longrightarrow>
      (\<exists>s'. put t0 te t1 k v s = Some (True, s') \<and>
         stored_value k s' = Some v \<and>
         (\<not> contains k s \<longrightarrow>
            stored_time k s' = Some te \<and>
            keys_of s' =
              k # (if size_c s = capacity s then butlast (keys_of s) else keys_of s)) \<and>
         (contains k s \<longrightarrow>
            stored_time k s \<noteq> None \<and> (\<forall>k'. stored_time k' s' = stored_time k' s) \<and>
            keys_of s' = k # remove1 k (keys_of s) \<and> index s' = index s \<and>
            (\<forall>k'. k' \<noteq> k \<longrightarrow> stored_value k' s' = stored_value k' s) \<and>
            (\<exists>it e. index s k = Some it \<and> deref it (lru_list s) = Some e \<and>
               lru_list s' = (it, e\<lparr>val := v\<rparr>) # list_erase it (lru_list s)))) \<and>
      (\<exists>r s'. get t0 t1 k s = Some (r, s') \<and> r = stored_value k s \<and>
         (contains k s \<longrightarrow> r \<noteq> None \<and> keys_of s' = k # remove1 k (keys_of s)) \<and>
         (\<not> contains k s \<longrightarrow> keys_of s' = keys_of s) \<and>
         index s' = index s \<and>
         (\<forall>k'. stored_time k' s' = stored_time k' s) \<and>
         (\<forall>k'. stored_value k' s' = stored_value k' s)) \<and>
      (\<forall>c s' k' t. step c s = Some s' \<and> stored_time k' s = Some t \<longrightarrow>
         stored_time k' s' = Some t \<or> \<not> contains k' s')) \<and>
   (stored_time 1 demo_state = Some 1 \<and> stored_time 2 demo_state = Some 4 \<and>
    stored_time 3 demo_state = Some 7 \<and>
    (\<exists>u. put 11 12 13 4 ''four'' demo_state = Some (True, u) \<and>
       stored_time 1 u = Some 1 \<and> stored_time 2 u = None \<and> stored_time 3 u = Some 7 \<and>
       stored_time 4 u = Some 12) \<and>
    (\<exists>u. put 11 12 13 2 ''TWO'' demo_state = Some (True, u) \<and>
       keys_of u = [2, 1, 3] \<and> stored_value 2 u = Some ''TWO'' \<and> stored_time 2 u = Some 4) \<and>
    (\<exists>u. get 11 12 2 demo_state = Some (Some ''two'', u) \<and>
       keys_of u = [2, 1, 3] \<and> stored_value 2 u = Some ''two'' \<and> stored_time 2 u = Some 4))"
proof (intro conjI impI)
  assume "cache_after C cs = Some s"
  then have inv: "cache_inv s" by (rule cache_after_reached(1))
  then have l: "linked s" by (simp add: cache_inv_def)
  from put_inv [OF inv, of t0 te t1 k v] obtain s'
    where p: "put t0 te t1 k v s = Some (True, s')"
    by blast
  from put_value [OF inv, of t0 te t1 k v] p
  have val: "stored_value k s' = Some v"
    and others: "contains k s \<longrightarrow> (\<forall>k'. k' \<noteq> k \<longrightarrow> stored_value k' s' = stored_value k' s)"
    by auto
  from put_stored_time [OF inv, of t0 te t1 k v] p
  have time: "\<not> contains k s \<longrightarrow> stored_time k s' = Some te"
    "contains k s \<longrightarrow> (\<forall>k'. stored_time k' s' = stored_time k' s)"
    by auto
  have absent: "keys_of s' =
      k # (if size_c s = capacity s then butlast (keys_of s) else keys_of s)"
    if "\<not> contains k s"
  proof -
    from that have a: "index s k = None" by (simp add: contains_def)
    show ?thesis
    proof (cases "length (lru_list s) = unat (capacity s)")
      case True
      with put_absent_full [OF inv a True, of t0 te t1 v] p full_iff [OF inv] show ?thesis
        by auto
    next
      case False
      with put_absent_not_full [OF inv a False, of t0 te t1 v] p full_iff [OF inv] show ?thesis
        by auto
    qed
  qed
  have present: "stored_time k s \<noteq> None \<and> keys_of s' = k # remove1 k (keys_of s) \<and>
      index s' = index s \<and>
      (\<exists>it e. index s k = Some it \<and> deref it (lru_list s) = Some e \<and>
         lru_list s' = (it, e\<lparr>val := v\<rparr>) # list_erase it (lru_list s))"
    if c: "contains k s"
  proof -
    from put_present [OF inv c, of t0 te t1 v] p obtain it e
      where it: "index s k = Some it" and e: "deref it (lru_list s) = Some e" "key e = k"
        and xs: "lru_list s' = (it, e\<lparr>val := v\<rparr>) # list_erase it (lru_list s)"
        and ix: "index s' = index s"
      by auto
    have "keys_of s' = k # remove1 k (keys_of s)"
      by (rule keys_relink [OF l it _ xs]) (simp add: e)
    with contains_stored [OF l c] it e xs ix show ?thesis by auto
  qed
  from p val others time absent present
  show "\<exists>s'. put t0 te t1 k v s = Some (True, s') \<and>
         stored_value k s' = Some v \<and>
         (\<not> contains k s \<longrightarrow>
            stored_time k s' = Some te \<and>
            keys_of s' =
              k # (if size_c s = capacity s then butlast (keys_of s) else keys_of s)) \<and>
         (contains k s \<longrightarrow>
            stored_time k s \<noteq> None \<and> (\<forall>k'. stored_time k' s' = stored_time k' s) \<and>
            keys_of s' = k # remove1 k (keys_of s) \<and> index s' = index s \<and>
            (\<forall>k'. k' \<noteq> k \<longrightarrow> stored_value k' s' = stored_value k' s) \<and>
            (\<exists>it e. index s k = Some it \<and> deref it (lru_list s) = Some e \<and>
               lru_list s' = (it, e\<lparr>val := v\<rparr>) # list_erase it (lru_list s)))"
    by blast
next
  assume "cache_after C cs = Some s"
  then have inv: "cache_inv s" by (rule cache_after_reached(1))
  then have l: "linked s" by (simp add: cache_inv_def)
  from get_inv [OF inv, of t0 t1 k] obtain r s'
    where g: "get t0 t1 k s = Some (r, s')"
    by blast
  from get_stored_time [OF inv, of t0 t1 k] g
  have time: "\<forall>k'. stored_time k' s' = stored_time k' s" by auto
  from get_value [OF inv, of t0 t1 k] g
  have val: "r = stored_value k s" "\<forall>k'. stored_value k' s' = stored_value k' s" by auto
  have hit: "r \<noteq> None \<and> keys_of s' = k # remove1 k (keys_of s) \<and> index s' = index s"
    if c: "contains k s"
  proof -
    from get_present [OF inv c, of t0 t1] g obtain it e
      where it: "index s k = Some it" and e: "key e = k" and r: "r = Some (val e)"
        and xs: "lru_list s' = (it, e) # list_erase it (lru_list s)"
        and ix: "index s' = index s"
      by auto
    from keys_relink [OF l it e xs] r ix show ?thesis by simp
  qed
  have miss: "keys_of s' = keys_of s \<and> index s' = index s" if "\<not> contains k s"
  proof -
    from that have "index s k = None" by (simp add: contains_def)
    from get_miss [OF this, of t0 t1] g show ?thesis by (auto simp: keys_of_def)
  qed
  from hit miss have ix: "index s' = index s" by blast
  from g time val ix hit miss
  show "\<exists>r s'. get t0 t1 k s = Some (r, s') \<and> r = stored_value k s \<and>
         (contains k s \<longrightarrow> r \<noteq> None \<and> keys_of s' = k # remove1 k (keys_of s)) \<and>
         (\<not> contains k s \<longrightarrow> keys_of s' = keys_of s) \<and>
         index s' = index s \<and>
         (\<forall>k'. stored_time k' s' = stored_time k' s) \<and>
         (\<forall>k'. stored_value k' s' = stored_value k' s)"
    by blast
next
  assume "cache_after C cs = Some s"
  then have inv: "cache_inv s" by (rule cache_after_reached(1))
  show "\<forall>c s' k' t. step c s = Some s' \<and> stored_time k' s = Some t \<longrightarrow>
         stored_time k' s' = Some t \<or> \<not> contains k' s'"
  proof (intro allI impI)
    fix c s' k' t
    assume a: "step c s = Some s' \<and> stored_time k' s = Some t"
    with step_inv [OF inv, of c] have "linked s'" by (auto simp: cache_inv_def)
    from contains_stored [OF this, of k'] a step_stored_time [OF inv, of c s' k' t]
    show "stored_time k' s' = Some t \<or> \<not> contains k' s'" by auto
  qed
next
  show "stored_time 1 demo_state = Some 1" "stored_time 2 demo_state = Some 4"
    "stored_time 3 demo_state = Some 7"
    by (simp_all add: stored_time_def demo_state_def deref_def)
  show "\<exists>u. put 11 12 13 4 ''four'' demo_state = Some (True, u) \<and>
       stored_time 1 u = Some 1 \<and> stored_time 2 u = None \<and> stored_time 3 u = Some 7 \<and>
       stored_time 4 u = Some 12"
    by (simp add: stored_time_def demo_state_def eval_defs)
  show "\<exists>u. put 11 12 13 2 ''TWO'' demo_state = Some (True, u) \<and>
       keys_of u = [2, 1, 3] \<and> stored_value 2 u = Some ''TWO'' \<and> stored_time 2 u = Some 4"
    by (simp add: stored_time_def stored_value_def keys_of_def demo_state_def eval_defs)
  show "\<exists>u. get 11 12 2 demo_state = Some (Some ''two'', u) \<and>
       keys_of u = [2, 1, 3] \<and> stored_value 2 u = Some ''two'' \<and> stored_time 2 u = Some 4"
    by (simp add: stored_time_def stored_value_def keys_of_def demo_state_def eval_defs)
qed

theorem access_time_assigned_once_witness:
  "cache_after 3 demo_calls = Some demo_state \<and>
   contains 1 demo_state \<and> contains 3 demo_state \<and> \<not> contains 4 demo_state \<and>
   stored_time 1 demo_state = Some 1 \<and> stored_time 3 demo_state = Some 7 \<and>
   keys_of demo_state = [1, 3, 2] \<and> stored_value 3 demo_state = Some ''three'' \<and>
   (\<exists>s'. put 11 12 13 1 ''uno'' demo_state = Some (True, s') \<and> stored_time 1 s' = Some 1) \<and>
   (\<exists>s'. put 11 12 13 3 ''THREE'' demo_state = Some (True, s') \<and>
      keys_of s' = [3, 1, 2] \<and> stored_value 3 s' = Some ''THREE'' \<and>
      stored_time 3 s' = Some 7 \<and> stored_value 1 s' = Some ''one'') \<and>
   (\<exists>s'. put 11 12 13 4 ''four'' demo_state = Some (True, s') \<and> stored_time 4 s' = Some 12 \<and>
      stored_value 4 s' = Some ''four'' \<and> keys_of s' = [4, 1, 3]) \<and>
   (\<exists>r s'. get 11 13 1 demo_state = Some (r, s') \<and> r \<noteq> None \<and> stored_time 1 s' = Some 1) \<and>
   (\<exists>s'. get 11 13 3 demo_state = Some (Some ''three'', s') \<and>
      keys_of s' = [3, 1, 2] \<and> stored_time 3 s' = Some 7 \<and>
      stored_value 3 s' = Some ''three'') \<and>
   (\<exists>s'. get 11 13 4 demo_state = Some (None, s') \<and> keys_of s' = [1, 3, 2]) \<and>
   (\<exists>s'. step (Remove 1) demo_state = Some s' \<and> \<not> contains 1 s') \<and>
   (\<exists>s'. step (Remove 2) demo_state = Some s' \<and> stored_time 1 s' = Some 1)"
proof -
  have c: "contains 1 demo_state" "contains 3 demo_state" and a: "\<not> contains 4 demo_state"
    and ks: "keys_of demo_state = [1, 3, 2]" and f: "size_c demo_state = capacity demo_state"
    and v: "stored_value 3 demo_state = Some ''three''" "stored_value 1 demo_state = Some ''one''"
      "stored_value 4 demo_state = None"
    by (simp_all add: contains_def demo_state_def keys_of_def size_c_def stored_value_def
        deref_def)
  note inst = access_time_assigned_once [of 3 demo_calls demo_state 11 12 13 1 "''uno''"]
  note inst3 = access_time_assigned_once [of 3 demo_calls demo_state 11 12 13 3 "''THREE''"]
  note inst4 = access_time_assigned_once [of 3 demo_calls demo_state 11 12 13 4 "''four''"]
  from inst have st: "stored_time 1 demo_state = Some 1" "stored_time 3 demo_state = Some 7"
    by blast+
  from inst demo_reached c st
  have "\<exists>s'. put 11 12 13 1 ''uno'' demo_state = Some (True, s') \<and> stored_time 1 s' = Some 1"
    by auto
  moreover from inst3 demo_reached c st ks v
  have "\<exists>s'. put 11 12 13 3 ''THREE'' demo_state = Some (True, s') \<and>
      keys_of s' = [3, 1, 2] \<and> stored_value 3 s' = Some ''THREE'' \<and>
      stored_time 3 s' = Some 7 \<and> stored_value 1 s' = Some ''one''"
    by auto
  moreover from inst4 demo_reached a ks f
  have "\<exists>s'. put 11 12 13 4 ''four'' demo_state = Some (True, s') \<and> stored_time 4 s' = Some 12 \<and>
      stored_value 4 s' = Some ''four'' \<and> keys_of s' = [4, 1, 3]"
    by auto
  moreover from inst demo_reached c st
  have "\<exists>r s'. get 11 13 1 demo_state = Some (r, s') \<and> r \<noteq> None \<and> stored_time 1 s' = Some 1"
    by auto
  moreover from inst3 demo_reached c st ks v
  have "\<exists>s'. get 11 13 3 demo_state = Some (Some ''three'', s') \<and>
      keys_of s' = [3, 1, 2] \<and> stored_time 3 s' = Some 7 \<and>
      stored_value 3 s' = Some ''three''"
    by auto
  moreover from inst4 demo_reached a ks v
  have "\<exists>s'. get 11 13 4 demo_state = Some (None, s') \<and> keys_of s' = [1, 3, 2]"
    by auto
  moreover
  obtain s1 where s1: "step (Remove 1) demo_state = Some s1" "stored_time 1 s1 \<noteq> Some 1"
    by (simp add: demo_state_def eval_defs stored_time_def)
  from inst demo_reached s1 st have "\<not> contains 1 s1" by blast
  moreover
  obtain s2 where s2: "step (Remove 2) demo_state = Some s2" "contains 1 s2"
    by (simp add: demo_state_def eval_defs contains_def)
  from inst demo_reached s2 st have "stored_time 1 s2 = Some 1" by blast
  ultimately show ?thesis using demo_reached c a st ks v s1 s2 by blast
qed

end
